theory Spec2Isabelle
  imports Main "HOL-Library.Signed_Division"
begin

unbundle bit_operations_syntax

section \<open>Steganography in OCaml: LSB image codec and RSA (Steganography.md)\<close>

text \<open>
  The program is the OCaml code listed in \<^verbatim>\<open>src/content/projects/Steganography.md\<close>.
  OCaml exceptions are values of the type \<open>exn\<close>; a computation that may raise returns
  \<open>exn + 'a\<close> (\<open>Inl\<close> the exception). A recursive function of the listing that does not
  terminate on every input is a \<^theory_text>\<open>partial_function\<close> in the option monad, where
  \<open>None\<close> is "does not return".
\<close>

subsection \<open>Exceptions\<close>

datatype exn =
    Failure string
  | Invalid_argument string
  | Division_by_zero
  | Overflow
  | End_of_file

subsection \<open>The Zarith and Stdlib primitives the listing calls\<close>

text \<open>
  \<open>Z.t\<close> is an unbounded integer: \<open>int\<close>. \<open>Z.(mod)\<close> is Zarith's \<open>Z.rem\<close> and \<open>Z.div\<close>
  truncates towards zero: \<open>smod\<close> and \<open>sdiv\<close>. \<open>Z.gcd\<close> is \<open>gcd\<close>, \<open>Z.abs\<close> is \<open>abs\<close>,
  \<open>Z.min\<close> is \<open>min\<close>.
\<close>

text \<open>
  \<open>Z.invert base mod\<close>: an inverse of \<open>base\<close> modulo \<open>mod\<close>, in \<open>[0, |mod|)\<close>;
  raises \<open>Division_by_zero\<close> when there is none.
\<close>

definition z_invert :: "int \<Rightarrow> int \<Rightarrow> exn + int" where
  "z_invert base m =
     (case find (\<lambda>r. (r * base) mod \<bar>m\<bar> = 1 mod \<bar>m\<bar>) [0 .. \<bar>m\<bar> - 1] of
        None \<Rightarrow> Inl Division_by_zero
      | Some r \<Rightarrow> Inr r)"

text \<open>
  \<open>Z.powm base exp mod\<close>: \<open>base ^ exp\<close> modulo \<open>mod\<close>, in \<open>[0, |mod|)\<close>; a negative
  exponent takes the power of the inverse of the base; raises \<open>Division_by_zero\<close> when
  \<open>mod\<close> is zero or that inverse does not exist.
\<close>

definition z_powm :: "int \<Rightarrow> int \<Rightarrow> int \<Rightarrow> exn + int" where
  "z_powm base ex m =
     (if m = 0 then Inl Division_by_zero
      else if 0 \<le> ex then Inr ((base ^ nat ex) mod \<bar>m\<bar>)
      else (case z_invert base m of
              Inl x \<Rightarrow> Inl x
            | Inr r \<Rightarrow> Inr ((r ^ nat (- ex)) mod \<bar>m\<bar>)))"

text \<open>\<open>Z.numbits x\<close>: the number of significant bits of \<open>|x|\<close>; \<open>0\<close> for \<open>0\<close>.\<close>

fun numbits_nat :: "nat \<Rightarrow> nat" where
  "numbits_nat k = (if k = 0 then 0 else Suc (numbits_nat (k div 2)))"

declare numbits_nat.simps [simp del]

definition z_numbits :: "int \<Rightarrow> int" where
  "z_numbits x = int (numbits_nat (nat \<bar>x\<bar>))"

text \<open>\<open>Z.to_string\<close>: the decimal representation, with a leading \<open>-\<close> when negative.\<close>

definition digit_char :: "nat \<Rightarrow> char" where
  "digit_char k = char_of (48 + k)"

fun nat_to_string :: "nat \<Rightarrow> string" where
  "nat_to_string k =
     (if k < 10 then [digit_char k] else nat_to_string (k div 10) @ [digit_char (k mod 10)])"

declare nat_to_string.simps [simp del]

definition z_to_string :: "int \<Rightarrow> string" where
  "z_to_string x =
     (if x < 0 then CHR ''-'' # nat_to_string (nat (- x)) else nat_to_string (nat x))"

text \<open>\<open>Z.to_int64\<close> raises \<open>Overflow\<close> outside the 64-bit signed range.\<close>

definition int64_max_int :: int where
  "int64_max_int = 2 ^ 63 - 1"

definition z_to_int64 :: "int \<Rightarrow> exn + int" where
  "z_to_int64 x = (if - (2 ^ 63) \<le> x \<and> x \<le> int64_max_int then Inr x else Inl Overflow)"

text \<open>
  \<open>Char.code\<close> is \<open>of_char\<close>; \<open>Char.chr\<close> raises \<open>Invalid_argument\<close> outside \<open>0..255\<close>.
\<close>

definition char_chr :: "int \<Rightarrow> exn + char" where
  "char_chr k = (if 0 \<le> k \<and> k \<le> 255 then Inr (char_of k) else Inl (Invalid_argument ''Char.chr''))"

text \<open>
  \<open>String.sub s start len\<close> raises \<open>Invalid_argument\<close> unless \<open>start\<close> and \<open>len\<close>
  designate a substring of \<open>s\<close>.
\<close>

definition string_sub :: "string \<Rightarrow> int \<Rightarrow> int \<Rightarrow> exn + string" where
  "string_sub s start len =
     (if start < 0 \<or> len < 0 \<or> start + len > int (length s)
      then Inl (Invalid_argument ''String.sub / Bytes.sub'')
      else Inr (take (nat len) (drop (nat start) s)))"

text \<open>
  The global pseudo-random generator of \<open>Random\<close> is a source \<open>rnd\<close> of raw draws and
  the position of the next draw, which every function that draws takes and returns.
  \<open>Random.int bound\<close> and \<open>Random.int64 bound\<close> return a value in \<open>[0, bound)\<close>, here the
  raw draw reduced modulo \<open>bound\<close>, and raise \<open>Invalid_argument\<close> when \<open>bound \<le> 0\<close>.
\<close>

type_synonym rng = "nat \<Rightarrow> nat"

definition random_int :: "rng \<Rightarrow> int \<Rightarrow> nat \<Rightarrow> exn + int \<times> nat" where
  "random_int rnd bound pos =
     (if bound \<le> 0 then Inl (Invalid_argument ''Random.int'')
      else Inr (int (rnd pos) mod bound, Suc pos))"

definition random_int64 :: "rng \<Rightarrow> int \<Rightarrow> nat \<Rightarrow> exn + int \<times> nat" where
  "random_int64 rnd bound pos =
     (if bound \<le> 0 then Inl (Invalid_argument ''Random.int64'')
      else Inr (int (rnd pos) mod bound, Suc pos))"

subsection \<open>Section 3.3: writing into the image\<close>

definition bit_failure :: string where
  "bit_failure = ''Message bit must be '' @ [CHR 0x27] @ ''0'' @ [CHR 0x27] @ '' or ''
                 @ [CHR 0x27] @ ''1'' @ [CHR 0x27]"

definition overwrite_last_bit :: "int \<Rightarrow> char \<Rightarrow> exn + int" where
  "overwrite_last_bit byte message_bit =
     (if message_bit = CHR ''1'' then Inr (byte OR 1)
      else if message_bit = CHR ''0'' then Inr (byte AND 0xFE)
      else Inl (Failure bit_failure))"

text \<open>
  A PPM file after \<open>read_header\<close>: the three header values and the bytes that follow
  the header in the file.
\<close>

record ppm =
  width :: int
  height :: int
  max_val :: string
  pixels :: string

text \<open>
  Modelled from the spec: \<open>int_to_fixed_length_binary\<close> is not in the listing; the
  header is the big-endian encoding of the length on a fixed number of bits, as
  \<open>'0'\<close>/\<open>'1'\<close> characters.
\<close>

definition int_to_fixed_length_binary :: "int \<Rightarrow> int \<Rightarrow> string" where
  "int_to_fixed_length_binary len v =
     map (\<lambda>i. if bit v i then CHR ''1'' else CHR ''0'') (rev [0 ..< nat len])"

text \<open>
  The body of the \<open>for i = 0 to image_size - 1\<close> loop of \<open>insert_message\<close>, from index
  \<open>i\<close>, on the state \<open>(buffer, message_index)\<close>. \<open>Bytes.get\<close> and \<open>Bytes.set\<close> raise
  \<open>Invalid_argument\<close> outside the buffer.
\<close>

function insert_loop :: "string \<Rightarrow> nat \<Rightarrow> nat \<Rightarrow> string \<times> nat \<Rightarrow> exn + string \<times> nat" where
  "insert_loop full_message image_size i (buffer, message_index) =
     (if i < image_size then
        (if message_index < length full_message then
           (if length buffer \<le> i then Inl (Invalid_argument ''index out of bounds'')
            else
              (let byte = of_char (buffer ! i);
                   msg_bit = full_message ! message_index
               in case overwrite_last_bit byte msg_bit of
                    Inl x \<Rightarrow> Inl x
                  | Inr b \<Rightarrow>
                      (case char_chr b of
                         Inl x \<Rightarrow> Inl x
                       | Inr ch \<Rightarrow>
                           insert_loop full_message image_size (Suc i)
                             (buffer[i := ch], Suc message_index))))
         else insert_loop full_message image_size (Suc i) (buffer, message_index))
      else Inr (buffer, message_index))"
  by pat_completeness auto
termination
  by (relation "measure (\<lambda>(full_message, image_size, i, st). image_size - i)") auto

declare insert_loop.simps [simp del]

text \<open>
  \<open>insert_message\<close>. The listing leaves \<open>string_to_binary\<close> and \<open>message_length\<close>
  undefined: both are parameters. The result is the content of \<open>output.ppm\<close>; an
  exception leaves the function before \<open>output_bytes\<close>. \<open>Bytes.create\<close> raises on a
  negative size and \<open>really_input\<close> raises \<open>End_of_file\<close> when the file holds fewer than
  \<open>image_size\<close> bytes after the header. The product \<open>width * height * 3\<close> is taken
  without the wrap-around of OCaml's 63-bit \<open>int\<close>: a buffer of that many bytes exists.
\<close>

definition insert_message ::
  "(string \<Rightarrow> string) \<Rightarrow> int \<Rightarrow> ppm \<Rightarrow> string \<Rightarrow> exn + ppm" where
  "insert_message string_to_binary message_length file message =
     (let image_size = width file * height file * 3 in
      if image_size < 0 then Inl (Invalid_argument ''Bytes.create'')
      else if int (length (pixels file)) < image_size then Inl End_of_file
      else
        (let buffer = take (nat image_size) (pixels file);
             binary_message = string_to_binary message;
             binary_length = int_to_fixed_length_binary 30 message_length;
             full_message = binary_length @ binary_message
         in case insert_loop full_message (nat image_size) 0 (buffer, 0) of
              Inl x \<Rightarrow> Inl x
            | Inr (buffer', message_index) \<Rightarrow>
                Inr \<lparr>width = width file, height = height file, max_val = max_val file,
                     pixels = buffer'\<rparr>))"

text \<open>The bitstream \<open>full_message\<close> that \<open>insert_message\<close> builds: header, then payload.\<close>

definition full_bitstream :: "(string \<Rightarrow> string) \<Rightarrow> int \<Rightarrow> string \<Rightarrow> string" where
  "full_bitstream string_to_binary message_length msg =
     int_to_fixed_length_binary 30 message_length @ string_to_binary msg"

subsection \<open>Annex 7.1: RSA\<close>

text \<open>
  The listing elides the record types of the keys, the plaintext and the ciphertext; their
  fields are those the code reads and builds. Both key types have fields \<open>n\<close> and \<open>e\<close> in
  OCaml: they are \<open>pk_n\<close>, \<open>pk_e\<close> in the public key and \<open>sk_n\<close>, \<open>sk_e\<close> in the private key;
  the field \<open>types\<close> of the ciphertext is \<open>c_types\<close>.
\<close>

record rsa_config =
  p_len :: int
  q_len :: int
  e_len :: int

record public_key =
  pk_n :: int
  pk_e :: int

record private_key =
  sk_n :: int
  sk_p :: int
  sk_q :: int
  sk_e :: int
  sk_d :: int

record plaintext =
  message :: int
  types :: string

record ciphertext =
  c :: int
  c_types :: string

definition coprime_z :: "int \<Rightarrow> int \<Rightarrow> bool" where
  "coprime_z a b \<longleftrightarrow> gcd a b = 1"

definition mod_exp :: "int \<Rightarrow> int \<Rightarrow> int \<Rightarrow> exn + int" where
  "mod_exp a b m = z_powm a b m"

definition mod_minv :: "int \<Rightarrow> int \<Rightarrow> exn + int" where
  "mod_minv a m = z_invert a m"

text \<open>
  \<open>z_gen\<close>: \<open>len\<close> random decimal digits. The recursion stops at \<open>len = 0\<close> only, so
  it does not return for a negative \<open>len\<close>.
\<close>

partial_function (option) z_gen' ::
  "rng \<Rightarrow> int \<Rightarrow> int \<Rightarrow> nat \<Rightarrow> (exn + int \<times> nat) option" where
  [code]: "z_gen' rnd len acc pos =
     (if len = 0 then Some (Inr (acc, pos))
      else (case random_int rnd 10 pos of
              Inl x \<Rightarrow> Some (Inl x)
            | Inr (r, pos') \<Rightarrow> z_gen' rnd (len - 1) (acc * 10 + r) pos'))"

definition z_gen :: "rng \<Rightarrow> int \<Rightarrow> nat \<Rightarrow> (exn + int \<times> nat) option" where
  "z_gen rnd len pos = z_gen' rnd len 0 pos"

text \<open>
  \<open>miller_rabin_test\<close>. \<open>get_factor_q\<close> halves while even, and does not return on \<open>0\<close>.
  The two inner functions \<open>miller_rabin_test'\<close> and \<open>miller_rabin_test''\<close> call each other:
  they are one function \<open>mr_loop\<close> on the call to make, \<open>Trial trails\<close> for
  \<open>miller_rabin_test' trails\<close> and \<open>Square trails a expp\<close> for \<open>miller_rabin_test'' expp\<close>
  inside the round of \<open>miller_rabin_test' trails\<close> that drew the base \<open>a\<close>. The second
  \<open>Z.powm a expp n\<close> of the listing has the value \<open>pw\<close> of the first.
\<close>

partial_function (option) get_factor_q :: "int \<Rightarrow> int option" where
  [code]: "get_factor_q num =
     (if num smod 2 = 0 then get_factor_q (num sdiv 2) else Some num)"

datatype mr_call = Trial int | Square int int int

partial_function (option) mr_loop ::
  "rng \<Rightarrow> int \<Rightarrow> int \<Rightarrow> mr_call \<Rightarrow> nat \<Rightarrow> (exn + bool \<times> nat) option" where
  [code]: "mr_loop rnd n q call pos =
     (case call of
        Trial trails \<Rightarrow>
          if trails = 0 then Some (Inr (True, pos))
          else (case z_to_int64 (min n int64_max_int) of
                  Inl x \<Rightarrow> Some (Inl x)
                | Inr bound \<Rightarrow>
                    (case random_int64 rnd bound pos of
                       Inl x \<Rightarrow> Some (Inl x)
                     | Inr (a, pos') \<Rightarrow> mr_loop rnd n q (Square trails a q) pos'))
      | Square trails a expp \<Rightarrow>
          (case z_powm a expp n of
             Inl x \<Rightarrow> Some (Inl x)
           | Inr pw \<Rightarrow>
               if \<bar>pw\<bar> = 1 then mr_loop rnd n q (Trial (trails - 1)) pos
               else if expp = n - 1 then Some (Inr (False, pos))
               else if pw smod n = n - 1
                 then mr_loop rnd n q (Square trails a (expp * 2)) pos
               else Some (Inr (False, pos))))"

definition miller_rabin_test ::
  "rng \<Rightarrow> int \<Rightarrow> int \<Rightarrow> nat \<Rightarrow> (exn + bool \<times> nat) option" where
  "miller_rabin_test rnd trails n pos =
     (if 2 = n then Some (Inr (True, pos))
      else (case get_factor_q (n - 1) of
              None \<Rightarrow> None
            | Some q \<Rightarrow> mr_loop rnd n q (Trial trails) pos))"

text \<open>
  The base that a round draws at position \<open>i\<close> of the random source, and the condition
  under which the round of \<open>mr_loop\<close> that drew \<open>a\<close> goes on to the next trial.
\<close>

definition draw_base :: "rng \<Rightarrow> int \<Rightarrow> nat \<Rightarrow> int" where
  "draw_base rnd n i = int (rnd i) mod min n int64_max_int"

definition round_passes :: "int \<Rightarrow> int \<Rightarrow> int \<Rightarrow> bool" where
  "round_passes n q a \<longleftrightarrow> a ^ nat q mod n = 1 \<or> (a ^ nat q mod n = n - 1 \<and> q \<noteq> n - 1)"

partial_function (option) prime_gen' ::
  "rng \<Rightarrow> int \<Rightarrow> int \<Rightarrow> nat \<Rightarrow> (exn + int \<times> nat) option" where
  [code]: "prime_gen' rnd trails len pos =
     (case z_gen rnd len pos of
        None \<Rightarrow> None
      | Some (Inl x) \<Rightarrow> Some (Inl x)
      | Some (Inr (p, pos1)) \<Rightarrow>
          (case miller_rabin_test rnd trails p pos1 of
             None \<Rightarrow> None
           | Some (Inl x) \<Rightarrow> Some (Inl x)
           | Some (Inr (passed, pos2)) \<Rightarrow>
               if passed then Some (Inr (p, pos2)) else prime_gen' rnd trails len pos2))"

definition prime_gen :: "rng \<Rightarrow> int \<Rightarrow> int \<Rightarrow> nat \<Rightarrow> (exn + int \<times> nat) option" where
  "prime_gen rnd trails len pos = prime_gen' rnd trails len pos"

partial_function (option) e_gen' ::
  "rng \<Rightarrow> rsa_config \<Rightarrow> int \<Rightarrow> nat \<Rightarrow> (exn + int \<times> nat) option" where
  [code]: "e_gen' rnd rc phi pos =
     (case z_gen rnd (e_len rc) pos of
        None \<Rightarrow> None
      | Some (Inl x) \<Rightarrow> Some (Inl x)
      | Some (Inr (e, pos1)) \<Rightarrow>
          if coprime_z e phi then Some (Inr (e, pos1)) else e_gen' rnd rc phi pos1)"

definition e_gen :: "rng \<Rightarrow> rsa_config \<Rightarrow> int \<Rightarrow> nat \<Rightarrow> (exn + int \<times> nat) option" where
  "e_gen rnd rc phi pos = e_gen' rnd rc phi pos"

definition d_gen :: "int \<Rightarrow> int \<Rightarrow> exn + int" where
  "d_gen e phi = mod_minv e phi"

text \<open>\<open>private_key_gen\<close>; \<open>prime_gen\<close> is called with its default of 50 trials.\<close>

definition private_key_gen ::
  "rng \<Rightarrow> rsa_config \<Rightarrow> nat \<Rightarrow> (exn + private_key \<times> nat) option" where
  "private_key_gen rnd rc pos =
     (case prime_gen rnd 50 (p_len rc) pos of
        None \<Rightarrow> None
      | Some (Inl x) \<Rightarrow> Some (Inl x)
      | Some (Inr (p, pos1)) \<Rightarrow>
     (case prime_gen rnd 50 (q_len rc) pos1 of
        None \<Rightarrow> None
      | Some (Inl x) \<Rightarrow> Some (Inl x)
      | Some (Inr (q, pos2)) \<Rightarrow>
     (let phi = (p - 1) * (q - 1) in
      case e_gen rnd rc phi pos2 of
        None \<Rightarrow> None
      | Some (Inl x) \<Rightarrow> Some (Inl x)
      | Some (Inr (e, pos3)) \<Rightarrow>
     (case d_gen e phi of
        Inl x \<Rightarrow> Some (Inl x)
      | Inr d \<Rightarrow>
          Some (Inr (\<lparr>sk_n = p * q, sk_p = p, sk_q = q, sk_e = e, sk_d = d\<rparr>, pos3))))))"

definition public_key_gen :: "private_key \<Rightarrow> public_key" where
  "public_key_gen pk = \<lparr>pk_n = sk_n pk, pk_e = sk_e pk\<rparr>"

fun encode :: "int \<Rightarrow> string \<Rightarrow> int" where
  "encode acc [] = acc"
| "encode acc (h # t) = encode (acc * 256 + of_char h) t"

definition plaintext_input_string :: "string \<Rightarrow> plaintext" where
  "plaintext_input_string s = \<lparr>message = encode 0 s, types = ''String''\<rparr>"

definition plaintext_encrypt :: "plaintext \<Rightarrow> public_key \<Rightarrow> exn + ciphertext" where
  "plaintext_encrypt pt pk =
     (case z_powm (message pt) (pk_e pk) (pk_n pk) of
        Inl x \<Rightarrow> Inl x
      | Inr cv \<Rightarrow> Inr \<lparr>c = cv, c_types = types pt\<rparr>)"

definition serialize_private_key :: "private_key \<Rightarrow> string" where
  "serialize_private_key pk =
     ''n='' @ z_to_string (sk_n pk) @ [CHR 0x0A] @ ''p='' @ z_to_string (sk_p pk) @ [CHR 0x0A]
     @ ''q='' @ z_to_string (sk_q pk) @ [CHR 0x0A] @ ''e='' @ z_to_string (sk_e pk) @ [CHR 0x0A]
     @ ''d='' @ z_to_string (sk_d pk)"

definition serialize_ciphertext :: "int \<Rightarrow> string" where
  "serialize_ciphertext cv = z_to_string cv"

text \<open>
  \<open>private_key_gen_and_save\<close> repeats the steps of \<open>private_key_gen\<close> and writes the
  serialized key to the file; the model returns the content written beside the key.
\<close>

definition private_key_gen_and_save ::
  "rng \<Rightarrow> rsa_config \<Rightarrow> nat \<Rightarrow> (exn + (private_key \<times> string) \<times> nat) option" where
  "private_key_gen_and_save rnd rc pos =
     (case private_key_gen rnd rc pos of
        None \<Rightarrow> None
      | Some (Inl x) \<Rightarrow> Some (Inl x)
      | Some (Inr (pk, pos')) \<Rightarrow> Some (Inr ((pk, serialize_private_key pk), pos')))"

text \<open>
  The inner \<open>encode_blocks\<close> of \<open>encrypt_and_return_message\<close>, with the \<open>block_size\<close> and
  the \<open>public_key\<close> it closes over as parameters. With a block size of \<open>0\<close> the
  remaining message never shrinks and the recursion does not return.
\<close>

partial_function (option) encode_blocks ::
  "int \<Rightarrow> public_key \<Rightarrow> string \<Rightarrow> string list \<Rightarrow> (exn + string list) option" where
  [code]: "encode_blocks block_size public_key msg acc =
     (if msg = [] then Some (Inr (rev acc))
      else
        (case string_sub msg 0 (min block_size (int (length msg))) of
           Inl x \<Rightarrow> Some (Inl x)
         | Inr block \<Rightarrow>
        (case string_sub msg (min block_size (int (length msg)))
                (int (length msg) - min block_size (int (length msg))) of
           Inl x \<Rightarrow> Some (Inl x)
         | Inr remaining \<Rightarrow>
        (let encoded = plaintext_input_string block in
         case plaintext_encrypt encoded public_key of
           Inl x \<Rightarrow> Some (Inl x)
         | Inr encrypted \<Rightarrow>
             encode_blocks block_size public_key remaining
               (serialize_ciphertext (c encrypted) # acc)))))"

text \<open>\<open>String.concat sep\<close>.\<close>

fun string_concat :: "string \<Rightarrow> string list \<Rightarrow> string" where
  "string_concat sep [] = []"
| "string_concat sep [s] = s"
| "string_concat sep (s # t # ss) = s @ sep @ string_concat sep (t # ss)"

definition block_size_of :: "int \<Rightarrow> int" where
  "block_size_of modulus = z_numbits modulus sdiv 8 - 1"

definition encrypt_and_return_message ::
  "rng \<Rightarrow> string \<Rightarrow> rsa_config \<Rightarrow> nat \<Rightarrow> (exn + (string \<times> string) \<times> nat) option" where
  "encrypt_and_return_message rnd msg rc pos =
     (case private_key_gen_and_save rnd rc pos of
        None \<Rightarrow> None
      | Some (Inl x) \<Rightarrow> Some (Inl x)
      | Some (Inr ((pk, saved), pos')) \<Rightarrow>
     (let public_key = public_key_gen pk;
          block_size = block_size_of (sk_n pk)
      in case encode_blocks block_size public_key msg [] of
           None \<Rightarrow> None
         | Some (Inl x) \<Rightarrow> Some (Inl x)
         | Some (Inr blocks) \<Rightarrow> Some (Inr ((string_concat '' '' blocks, saved), pos'))))"

text \<open>Random sources used at concrete inputs.\<close>

definition const_rnd :: "nat \<Rightarrow> rng" where
  "const_rnd k = (\<lambda>i. k)"

definition key_rnd :: rng where
  "key_rnd =
     (\<lambda>i. if i = 0 then 7 else if i = 51 \<or> i = 52 then 1 else if i = 103 then 7 else 2)"

definition retry_rnd :: "nat \<Rightarrow> rng" where
  "retry_rnd N =
     (\<lambda>i. if i < 2 * N then (if even i then 9 else 2) else key_rnd (i - 2 * N))"

text \<open>The big-endian base-256 value of a byte string, as the specification words it.\<close>

definition big_endian_value :: "string \<Rightarrow> int" where
  "big_endian_value s = (\<Sum>i<length s. of_char (s ! i) * 256 ^ (length s - 1 - i))"

subsection \<open>Definitions that follow the specification\<close>

text \<open>
  The partition of a byte sequence into consecutive chunks of \<open>k\<close> bytes, the last one
  possibly shorter, and the encryption of one chunk: its big-endian value to the power
  \<open>e\<close> modulo \<open>n\<close>.
\<close>

function chunks :: "nat \<Rightarrow> 'a list \<Rightarrow> 'a list list" where
  "chunks k xs = (if k = 0 \<or> xs = [] then [] else take k xs # chunks k (drop k xs))"
  by pat_completeness auto
termination
  by (relation "measure (\<lambda>(k, xs). length xs)") auto

declare chunks.simps [simp del]

definition encrypt_chunk :: "public_key \<Rightarrow> string \<Rightarrow> int" where
  "encrypt_chunk pk block = big_endian_value block ^ nat (pk_e pk) mod pk_n pk"

text \<open>Primality by trial division, for the key pairs on which RSA decrypts.\<close>

definition is_prime :: "nat \<Rightarrow> bool" where
  "is_prime p \<longleftrightarrow> 1 < p \<and> (\<forall>m\<in>{2..<p}. \<not> m dvd p)"

text \<open>
  Modelled from the spec: decoding a block back to bytes is not in the listing, which
  only encrypts. \<open>int_to_bytes\<close> takes the big-endian base-256 digits of the integer,
  the shortest byte string with that value; \<open>int_to_bytes_width k\<close> takes its \<open>k\<close> low
  digits, the byte string of exactly \<open>k\<close> bytes with that value.
\<close>

function int_to_bytes :: "int \<Rightarrow> string" where
  "int_to_bytes m = (if m \<le> 0 then [] else int_to_bytes (m div 256) @ [char_of (m mod 256)])"
  by pat_completeness auto
termination
  by (relation "measure nat") auto

declare int_to_bytes.simps [simp del]

fun int_to_bytes_width :: "nat \<Rightarrow> int \<Rightarrow> string" where
  "int_to_bytes_width 0 m = []"
| "int_to_bytes_width (Suc k) m = int_to_bytes_width k (m div 256) @ [char_of (m mod 256)]"

text \<open>
  Modelled from the spec: \<open>decryptBlock\<close> is not in the listing; the specification has
  \<open>decryptBlock(c, priv)\<close> compute \<open>c^d mod n\<close>.
\<close>

definition decryptBlock :: "int \<Rightarrow> private_key \<Rightarrow> int" where
  "decryptBlock cv priv = cv ^ nat (sk_d priv) mod sk_n priv"

text \<open>
  The sequence of integers that \<open>encryptMessage\<close> of the specification returns: the
  encryption of each chunk, in order. \<open>encode_blocks\<close> returns its serialization.
\<close>

definition encryptMessage :: "string \<Rightarrow> public_key \<Rightarrow> int list" where
  "encryptMessage bytes pk =
     map (encrypt_chunk pk) (chunks (nat (block_size_of (pk_n pk))) bytes)"

text \<open>
  Modelled from the spec: \<open>decryptMessage\<close> is not in the listing; the specification has
  it decrypt each block, decode it back to bytes and concatenate in order, and fixes the
  chunk size at \<open>\<lfloor>bitLength(n)/8\<rfloor> - 1\<close> bytes. Every chunk but the last has exactly that
  many bytes, so every block but the last decodes at that width, leading zero bytes
  included. The length of the last chunk is not in the ciphertext: the last block decodes
  to the shortest byte string of its value that is not empty.
\<close>

definition decode_last :: "int \<Rightarrow> string" where
  "decode_last m = (if m \<le> 0 then [CHR 0x00] else int_to_bytes m)"

fun decode_blocks :: "nat \<Rightarrow> int list \<Rightarrow> string" where
  "decode_blocks k [] = []"
| "decode_blocks k [v] = decode_last v"
| "decode_blocks k (v # w # vs) = int_to_bytes_width k v @ decode_blocks k (w # vs)"

definition decryptMessage :: "int list \<Rightarrow> private_key \<Rightarrow> string" where
  "decryptMessage blocks priv =
     decode_blocks (nat (block_size_of (sk_n priv))) (map (\<lambda>cv. decryptBlock cv priv) blocks)"

text \<open>
  Random sources and the key pairs \<open>private_key_gen\<close> returns on them: the digits of
  \<open>p\<close>, fifty bases, the digits of \<open>q\<close>, fifty bases, the digits of \<open>e\<close>.
\<close>

definition rsa_rnd :: rng where
  "rsa_rnd i =
     (if i < 4 then [2, 7, 6, 7] ! i
      else if 54 \<le> i \<and> i < 58 then [3, 0, 6, 1] ! (i - 54)
      else if 108 \<le> i \<and> i < 114 then [7, 6, 9, 4, 5, 1] ! (i - 108)
      else 4)"

definition rsa_key :: private_key where
  "rsa_key = \<lparr>sk_n = 8469787, sk_p = 2767, sk_q = 3061, sk_e = 769451, sk_d = 11\<rparr>"

definition rsa_config_464 :: rsa_config where
  "rsa_config_464 = \<lparr>p_len = 4, q_len = 4, e_len = 6\<rparr>"

definition composite_rnd :: rng where
  "composite_rnd i =
     (if i < 4 then [2, 0, 4, 7] ! i
      else if 54 \<le> i \<and> i < 58 then [2, 7, 6, 7] ! (i - 54)
      else if i = 108 then 7
      else 2)"

definition composite_key :: private_key where
  "composite_key = \<lparr>sk_n = 5664049, sk_p = 2047, sk_q = 2767, sk_e = 7, sk_d = 2425387\<rparr>"

definition rsa_config_441 :: rsa_config where
  "rsa_config_441 = \<lparr>p_len = 4, q_len = 4, e_len = 1\<rparr>"

text \<open>Square-and-multiply, to evaluate a modular power on numerals.\<close>

function pow_mod :: "int \<Rightarrow> nat \<Rightarrow> int \<Rightarrow> int" where
  "pow_mod x k m =
     (if k = 0 then 1 mod m
      else if even k then pow_mod ((x * x) mod m) (k div 2) m
      else (x * pow_mod ((x * x) mod m) (k div 2) m) mod m)"
  by pat_completeness auto
termination
  by (relation "measure (\<lambda>(x, k, m). k)") auto

declare pow_mod.simps [simp del]

section \<open>Properties\<close>

subsection \<open>The image codec\<close>

lemma of_char_int_range: "0 \<le> (of_char ch :: int) \<and> (of_char ch :: int) < 256"
proof -
  have "(of_char ch :: int) = int (of_char ch)" by (simp add: of_char_def) 
  moreover have "(of_char ch :: nat) < 256" by simp
  ultimately show ?thesis by simp
qed

lemma or_one_int: "(b::int) OR 1 = (if even b then b + 1 else b)"
  by (simp add: or_one_eq)

lemma and_fe_int:
  fixes b :: int
  assumes "0 \<le> b" "b < 256"
  shows "b AND 0xFE = 2 * (b div 2)"
proof -
  have "b AND 254 = 2 * ((b div 2) AND 127)"
    using and_int.rec [of b 254] by simp
  also have "(b div 2) AND 127 = take_bit 7 (b div 2)"
    by (simp add: take_bit_eq_mask mask_numeral)
  also have "\<dots> = b div 2"
    using assms by (simp add: take_bit_int_eq_self)
  finally show ?thesis by simp
qed

lemma overwrite_last_bit_byte:
  assumes "0 \<le> b" "b < 256" "bt = CHR ''0'' \<or> bt = CHR ''1''"
  shows "\<exists>b'. overwrite_last_bit b bt = Inr b' \<and> 0 \<le> b' \<and> b' < 256
              \<and> b' div 2 = b div 2 \<and> (odd b' \<longleftrightarrow> bt = CHR ''1'')"
proof (cases "bt = CHR ''1''")
  case True
  then show ?thesis using assms
    by (auto simp add: overwrite_last_bit_def or_one_int elim!: oddE evenE)
next
  case False
  with assms have "bt = CHR ''0''" by simp
  then show ?thesis using assms
    by (simp add: overwrite_last_bit_def and_fe_int)
qed


lemma insert_loop_result:
  assumes bits: "\<forall>j<length full. full ! j = CHR ''0'' \<or> full ! j = CHR ''1''"
    and "sz \<le> length buf" and "i \<le> sz" and "mi = min i (length full)"
  shows "\<exists>buf'. insert_loop full sz i (buf, mi) = Inr (buf', min sz (length full))
           \<and> length buf' = length buf
           \<and> (\<forall>j<length buf.
                 if i \<le> j \<and> j < sz \<and> j < length full
                 then overwrite_last_bit (of_char (buf ! j)) (full ! j) = Inr (of_char (buf' ! j))
                 else buf' ! j = buf ! j)"
  using assms(2-)
proof (induction "sz - i" arbitrary: i buf mi)
  case 0
  then have "i = sz" by simp
  with 0 show ?case
    by (auto simp add: insert_loop.simps [of full sz sz])
next
  case (Suc k)
  then have i: "i < sz" by simp
  show ?case
  proof (cases "i < length full")
    case True
    with Suc.prems have mi: "mi = i" by simp
    from True bits have "full ! i = CHR ''0'' \<or> full ! i = CHR ''1''" by simp
    with overwrite_last_bit_byte [of "of_char (buf ! i)" "full ! i"] of_char_int_range [of "buf ! i"]
    obtain b' where b': "overwrite_last_bit (of_char (buf ! i)) (full ! i) = Inr b'"
      "0 \<le> b'" "b' < 256"
      by blast
    then have chr: "char_chr b' = Inr (char_of b')"
      by (simp add: char_chr_def)
    have rt: "(of_char (char_of b') :: int) = b'"
      using b' by simp
    let ?buf = "buf[i := char_of b']"
    have inb: "\<not> length buf \<le> i" using i Suc.prems(1) by simp
    have step: "insert_loop full sz i (buf, mi) = insert_loop full sz (Suc i) (?buf, Suc i)"
      using i True mi b' chr inb by (simp add: insert_loop.simps [of full sz i])
    have "k = sz - Suc i" using Suc.hyps(2) by simp
    moreover have "sz \<le> length ?buf" using Suc.prems by simp
    moreover have "Suc i \<le> sz" using i by simp
    moreover have "Suc i = min (Suc i) (length full)" using True by simp
    ultimately obtain buf' where r:
      "insert_loop full sz (Suc i) (?buf, Suc i) = Inr (buf', min sz (length full))"
      "length buf' = length ?buf"
      "\<forall>j<length ?buf.
          if Suc i \<le> j \<and> j < sz \<and> j < length full
          then overwrite_last_bit (of_char (?buf ! j)) (full ! j) = Inr (of_char (buf' ! j))
          else buf' ! j = ?buf ! j"
      using Suc.hyps(1) [of "Suc i" ?buf "Suc i"] by blast
    have "\<forall>j<length buf.
            if i \<le> j \<and> j < sz \<and> j < length full
            then overwrite_last_bit (of_char (buf ! j)) (full ! j) = Inr (of_char (buf' ! j))
            else buf' ! j = buf ! j"
    proof (intro allI impI)
      fix j assume j: "j < length buf"
      show "if i \<le> j \<and> j < sz \<and> j < length full
            then overwrite_last_bit (of_char (buf ! j)) (full ! j) = Inr (of_char (buf' ! j))
            else buf' ! j = buf ! j"
      proof (cases "j = i")
        case True
        with r(3) j have "buf' ! i = char_of b'" by simp
        with True b' rt i \<open>i < length full\<close> show ?thesis by simp
      next
        case False
        with r(3) j show ?thesis by (auto split: if_splits)
      qed
    qed
    with step r show ?thesis by simp
  next
    case False
    with Suc.prems have mi: "mi = length full" by simp
    have step: "insert_loop full sz i (buf, mi) = insert_loop full sz (Suc i) (buf, mi)"
      using i mi by (simp add: insert_loop.simps [of full sz i])
    have "k = sz - Suc i" using Suc.hyps(2) by simp
    moreover have "Suc i \<le> sz" using i by simp
    moreover have "mi = min (Suc i) (length full)" using False mi by simp
    ultimately obtain buf' where r:
      "insert_loop full sz (Suc i) (buf, mi) = Inr (buf', min sz (length full))"
      "length buf' = length buf"
      "\<forall>j<length buf.
          if Suc i \<le> j \<and> j < sz \<and> j < length full
          then overwrite_last_bit (of_char (buf ! j)) (full ! j) = Inr (of_char (buf' ! j))
          else buf' ! j = buf ! j"
      using Suc.hyps(1) [of "Suc i" buf mi] Suc.prems(1) by blast
    from r(3) False have "\<forall>j<length buf.
            if i \<le> j \<and> j < sz \<and> j < length full
            then overwrite_last_bit (of_char (buf ! j)) (full ! j) = Inr (of_char (buf' ! j))
            else buf' ! j = buf ! j"
      by (auto split: if_splits)
    with step r show ?thesis by simp
  qed
qed


lemma int_to_fixed_length_binary_length:
  "length (int_to_fixed_length_binary len v) = nat len"
  by (simp add: int_to_fixed_length_binary_def)

lemma int_to_fixed_length_binary_bits:
  "b \<in> set (int_to_fixed_length_binary len v) \<Longrightarrow> b = CHR ''0'' \<or> b = CHR ''1''"
  by (auto simp add: int_to_fixed_length_binary_def)

lemma same_half_close:
  fixes a b :: int
  assumes "a div 2 = b div 2"
  shows "\<bar>a - b\<bar> \<le> 1"
  using assms by arith

lemma insert_message_result:
  assumes bits: "\<forall>b\<in>set (string_to_binary msg). b = CHR ''0'' \<or> b = CHR ''1''"
    and size: "0 \<le> width file * height file * 3"
      "width file * height file * 3 \<le> int (length (pixels file))"
  shows "\<exists>out. insert_message string_to_binary message_length file msg = Inr out
           \<and> width out = width file \<and> height out = height file \<and> max_val out = max_val file
           \<and> int (length (pixels out)) = width file * height file * 3
           \<and> (\<forall>j. int j < width file * height file * 3 \<longrightarrow>
                 (if j < length (int_to_fixed_length_binary 30 message_length @ string_to_binary msg)
                  then overwrite_last_bit (of_char (pixels file ! j))
                         ((int_to_fixed_length_binary 30 message_length @ string_to_binary msg) ! j)
                       = Inr (of_char (pixels out ! j))
                  else pixels out ! j = pixels file ! j))"
proof -
  let ?sz = "nat (width file * height file * 3)"
  let ?full = "int_to_fixed_length_binary 30 message_length @ string_to_binary msg"
  let ?buf = "take ?sz (pixels file)"
  have len: "length ?buf = ?sz" using size by simp
  have "\<forall>j<length ?full. ?full ! j = CHR ''0'' \<or> ?full ! j = CHR ''1''"
  proof (intro allI impI)
    fix j assume "j < length ?full"
    then have "?full ! j \<in> set ?full" by (rule nth_mem)
    with bits int_to_fixed_length_binary_bits [of "?full ! j" 30 message_length]
    show "?full ! j = CHR ''0'' \<or> ?full ! j = CHR ''1''" by auto
  qed
  then obtain buf' where r0:
    "insert_loop ?full ?sz 0 (?buf, 0) = Inr (buf', min ?sz (length ?full))"
    "length buf' = length ?buf"
    "\<forall>j<length ?buf. if 0 \<le> j \<and> j < ?sz \<and> j < length ?full
        then overwrite_last_bit (of_char (?buf ! j)) (?full ! j) = Inr (of_char (buf' ! j))
        else buf' ! j = ?buf ! j"
    using insert_loop_result [of ?full ?sz ?buf 0 0] len by fastforce
  have r: "insert_loop ?full ?sz 0 (?buf, 0) = Inr (buf', min ?sz (length ?full))"
    "length buf' = ?sz"
    using r0 len by simp_all
  have r3: "if j < length ?full
        then overwrite_last_bit (of_char (?buf ! j)) (?full ! j) = Inr (of_char (buf' ! j))
        else buf' ! j = ?buf ! j" if "j < ?sz" for j
  proof -
    from that len have "j < length ?buf" by simp
    from r0(3) [rule_format, OF this] that show ?thesis by simp
  qed
  let ?out = "\<lparr>width = width file, height = height file, max_val = max_val file,
               pixels = buf'\<rparr>"
  have "insert_message string_to_binary message_length file msg = Inr ?out"
    using size r(1) by (simp add: insert_message_def Let_def)
  moreover have "int (length (pixels ?out)) = width file * height file * 3"
    using r(2) size by simp
  moreover have "\<forall>j. int j < width file * height file * 3 \<longrightarrow>
       (if j < length ?full
        then overwrite_last_bit (of_char (pixels file ! j)) (?full ! j)
             = Inr (of_char (pixels ?out ! j))
        else pixels ?out ! j = pixels file ! j)"
  proof (intro allI impI)
    fix j assume "int j < width file * height file * 3"
    then have j: "j < ?sz" by simp
    then have "?buf ! j = pixels file ! j" by simp
    with r3 [OF j] show "if j < length ?full
        then overwrite_last_bit (of_char (pixels file ! j)) (?full ! j)
             = Inr (of_char (pixels ?out ! j))
        else pixels ?out ! j = pixels file ! j"
      by (auto split: if_splits)
  qed
  ultimately show ?thesis by (intro exI [of _ ?out]) simp
qed


lemma full_bitstream_length:
  "int (length (full_bitstream string_to_binary message_length msg))
     = 30 + int (length (string_to_binary msg))"
  by (simp add: full_bitstream_def int_to_fixed_length_binary_length)

lemma overwrite_last_bit_char:
  assumes "overwrite_last_bit (of_char x) bt = Inr (of_char y)"
    and "bt = CHR ''0'' \<or> bt = CHR ''1''"
  shows "(odd (of_char y :: int) \<longleftrightarrow> bt = CHR ''1'')
         \<and> (of_char y :: int) div 2 = of_char x div 2
         \<and> \<bar>(of_char y :: int) - of_char x\<bar> \<le> 1"
proof -
  from overwrite_last_bit_byte [of "of_char x" bt] of_char_int_range [of x] assms
  have "(odd (of_char y :: int) \<longleftrightarrow> bt = CHR ''1'')"
    and h: "(of_char y :: int) div 2 = of_char x div 2"
    by auto
  with same_half_close [OF h] show ?thesis by simp
qed

text \<open>
  C7. When the bitstream (30-bit header, then payload) fits in the image,
  \<open>insert_message\<close> succeeds and writes bit \<open>j\<close> of the bitstream into the least
  significant bit of byte \<open>j\<close> of the pixel data, in the order of the bytes in the file
  (for P6: row by row, and R, G, B within a pixel). A written byte keeps its upper seven
  bits, so its value moves by at most 1, and every byte from the length of the bitstream
  on is unchanged.
\<close>

theorem insert_message_lsb_frame:
  assumes bits: "\<forall>b\<in>set (string_to_binary msg). b = CHR ''0'' \<or> b = CHR ''1''"
    and fits: "30 + int (length (string_to_binary msg)) \<le> width file * height file * 3"
    and data: "width file * height file * 3 \<le> int (length (pixels file))"
  shows "\<exists>out. insert_message string_to_binary message_length file msg = Inr out
           \<and> int (length (pixels out)) = width file * height file * 3
           \<and> (\<forall>j<length (full_bitstream string_to_binary message_length msg).
                 (odd (of_char (pixels out ! j) :: int)
                    \<longleftrightarrow> full_bitstream string_to_binary message_length msg ! j = CHR ''1'')
                 \<and> (of_char (pixels out ! j) :: int) div 2 = of_char (pixels file ! j) div 2
                 \<and> \<bar>(of_char (pixels out ! j) :: int) - of_char (pixels file ! j)\<bar> \<le> 1)
           \<and> (\<forall>j. length (full_bitstream string_to_binary message_length msg) \<le> j
                    \<and> int j < width file * height file * 3
                  \<longrightarrow> pixels out ! j = pixels file ! j)"
proof -
  let ?full = "full_bitstream string_to_binary message_length msg"
  have pos: "0 \<le> width file * height file * 3" using fits by simp
  from insert_message_result [of string_to_binary msg "file" message_length, OF bits pos data]
  obtain out where out: "insert_message string_to_binary message_length file msg = Inr out"
    "int (length (pixels out)) = width file * height file * 3"
    and px: "\<And>j. int j < width file * height file * 3 \<Longrightarrow>
            (if j < length ?full
             then overwrite_last_bit (of_char (pixels file ! j)) (?full ! j)
                  = Inr (of_char (pixels out ! j))
             else pixels out ! j = pixels file ! j)"
    unfolding full_bitstream_def by blast
  have fb: "?full ! j = CHR ''0'' \<or> ?full ! j = CHR ''1''" if "j < length ?full" for j
  proof -
    from that have "?full ! j \<in> set ?full" by (rule nth_mem)
    with bits int_to_fixed_length_binary_bits [of "?full ! j" 30 message_length]
    show ?thesis by (auto simp add: full_bitstream_def)
  qed
  have "(odd (of_char (pixels out ! j) :: int) \<longleftrightarrow> ?full ! j = CHR ''1'')
        \<and> (of_char (pixels out ! j) :: int) div 2 = of_char (pixels file ! j) div 2
        \<and> \<bar>(of_char (pixels out ! j) :: int) - of_char (pixels file ! j)\<bar> \<le> 1"
    if "j < length ?full" for j
  proof -
    from that fits full_bitstream_length [of string_to_binary message_length msg]
    have "int j < width file * height file * 3" by simp
    from px [OF this] that
    have "overwrite_last_bit (of_char (pixels file ! j)) (?full ! j)
          = Inr (of_char (pixels out ! j))" by simp
    from overwrite_last_bit_char [OF this fb [OF that]] show ?thesis .
  qed
  moreover have "pixels out ! j = pixels file ! j"
    if "length ?full \<le> j \<and> int j < width file * height file * 3" for j
    using px [of j] that by simp
  ultimately show ?thesis using out by blast
qed

theorem insert_message_lsb_frame_witness:
  "\<exists>out. insert_message id 2
            \<lparr>width = 4, height = 3, max_val = ''255'', pixels = replicate 36 (CHR 0xFF)\<rparr>
            ''10'' = Inr out
        \<and> int (length (pixels out)) = 36
        \<and> pixels out ! 32 = CHR 0xFF"
proof -
  let ?file = "\<lparr>width = 4, height = 3, max_val = ''255'', pixels = replicate 36 (CHR 0xFF)\<rparr>"
  have h1: "\<forall>b\<in>set (id ''10''). b = CHR ''0'' \<or> b = CHR ''1''" by simp
  have h2: "30 + int (length (id ''10'')) \<le> width ?file * height ?file * 3" by simp
  have h3: "width ?file * height ?file * 3 \<le> int (length (pixels ?file))" by simp
  from insert_message_lsb_frame [of id "''10''" ?file 2, OF h1 h2 h3]
  obtain out where out: "insert_message id 2 ?file ''10'' = Inr out"
    "int (length (pixels out)) = width ?file * height ?file * 3"
    and rest: "\<forall>j. length (full_bitstream id 2 ''10'') \<le> j \<and> int j < width ?file * height ?file * 3
                  \<longrightarrow> pixels out ! j = pixels ?file ! j"
    by blast
  have "length (full_bitstream id 2 ''10'') \<le> 32 \<and> int 32 < width ?file * height ?file * 3"
    by (simp add: full_bitstream_def int_to_fixed_length_binary_length)
  with rest have "pixels out ! 32 = pixels ?file ! 32" by blast
  with out show ?thesis by simp
qed

text \<open>
  C3, as the code has it. \<open>insert_message\<close> has no capacity check and no
  \<open>PayloadTooLarge\<close> error: for every payload of \<open>'0'\<close>/\<open>'1'\<close> characters, however long,
  it succeeds; bit \<open>j\<close> of the bitstream is embedded in byte \<open>j\<close> for every \<open>j\<close> below both
  the length of the bitstream and \<open>width * height * 3\<close>, so the whole bitstream is embedded
  when \<open>30 + len \<le> width * height * 3\<close> and only its first \<open>width * height * 3\<close> bits are
  otherwise.
\<close>

theorem insert_message_no_capacity_check:
  assumes bits: "\<forall>b\<in>set (string_to_binary msg). b = CHR ''0'' \<or> b = CHR ''1''"
    and pos: "0 \<le> width file * height file * 3"
    and data: "width file * height file * 3 \<le> int (length (pixels file))"
  shows "\<exists>out. insert_message string_to_binary message_length file msg = Inr out
           \<and> int (length (pixels out)) = width file * height file * 3
           \<and> (\<forall>j. j < length (full_bitstream string_to_binary message_length msg)
                    \<and> int j < width file * height file * 3
                  \<longrightarrow> (odd (of_char (pixels out ! j) :: int)
                        \<longleftrightarrow> full_bitstream string_to_binary message_length msg ! j = CHR ''1''))
           \<and> (\<forall>j. length (full_bitstream string_to_binary message_length msg) \<le> j
                    \<and> int j < width file * height file * 3
                  \<longrightarrow> pixels out ! j = pixels file ! j)"
proof -
  let ?full = "full_bitstream string_to_binary message_length msg"
  from insert_message_result [of string_to_binary msg "file" message_length, OF bits pos data]
  obtain out where out: "insert_message string_to_binary message_length file msg = Inr out"
    "int (length (pixels out)) = width file * height file * 3"
    and px: "\<And>j. int j < width file * height file * 3 \<Longrightarrow>
            (if j < length ?full
             then overwrite_last_bit (of_char (pixels file ! j)) (?full ! j)
                  = Inr (of_char (pixels out ! j))
             else pixels out ! j = pixels file ! j)"
    unfolding full_bitstream_def by blast
  have fb: "?full ! j = CHR ''0'' \<or> ?full ! j = CHR ''1''" if "j < length ?full" for j
  proof -
    from that have "?full ! j \<in> set ?full" by (rule nth_mem)
    with bits int_to_fixed_length_binary_bits [of "?full ! j" 30 message_length]
    show ?thesis by (auto simp add: full_bitstream_def)
  qed
  have "odd (of_char (pixels out ! j) :: int) \<longleftrightarrow> ?full ! j = CHR ''1''"
    if "j < length ?full \<and> int j < width file * height file * 3" for j
  proof -
    from px [of j] that
    have "overwrite_last_bit (of_char (pixels file ! j)) (?full ! j)
          = Inr (of_char (pixels out ! j))" by simp
    from overwrite_last_bit_char [OF this fb] that show ?thesis by simp
  qed
  moreover have "pixels out ! j = pixels file ! j"
    if "length ?full \<le> j \<and> int j < width file * height file * 3" for j
    using px [of j] that by simp
  ultimately show ?thesis using out by blast
qed

theorem insert_message_no_capacity_check_witness:
  "\<exists>out. insert_message id 1
            \<lparr>width = 1, height = 1, max_val = ''255'', pixels = [CHR 0xFF, CHR 0xFF, CHR 0xFF]\<rparr>
            ''1'' = Inr out
        \<and> int (length (pixels out)) = 3"
proof -
  let ?file = "\<lparr>width = 1, height = 1, max_val = ''255'', pixels = [CHR 0xFF, CHR 0xFF, CHR 0xFF]\<rparr>"
  have h1: "\<forall>b\<in>set (id ''1''). b = CHR ''0'' \<or> b = CHR ''1''" by simp
  have h2: "0 \<le> width ?file * height ?file * 3" by simp
  have h3: "width ?file * height ?file * 3 \<le> int (length (pixels ?file))" by simp
  from insert_message_no_capacity_check [of id "''1''" ?file 1, OF h1 h2 h3]
  obtain out where "insert_message id 1 ?file ''1'' = Inr out"
    and "int (length (pixels out)) = width ?file * height ?file * 3"
    by blast
  then show ?thesis by simp
qed

text \<open>
  C3, as the specification has it, fails: on a 1 by 1 image (capacity 3 bits) a one-bit
  payload needs 31 bits, and \<open>insert_message\<close> returns an image (the first three header
  bits, all zero, embedded) instead of failing.
\<close>

theorem insert_message_payload_too_large_counterexample:
  "30 + int (length (id ''1''))
     > width \<lparr>width = 1, height = 1, max_val = ''255'', pixels = [CHR 0xFF, CHR 0xFF, CHR 0xFF]\<rparr>
       * height \<lparr>width = 1, height = 1, max_val = ''255'', pixels = [CHR 0xFF, CHR 0xFF, CHR 0xFF]\<rparr> * 3
   \<and> insert_message id 1
        \<lparr>width = 1, height = 1, max_val = ''255'', pixels = [CHR 0xFF, CHR 0xFF, CHR 0xFF]\<rparr> ''1''
      = Inr \<lparr>width = 1, height = 1, max_val = ''255'', pixels = [CHR 0xFE, CHR 0xFE, CHR 0xFE]\<rparr>"
  by code_simp


subsection \<open>The primality test\<close>

lemma z_powm_nonneg:
  "0 < n \<Longrightarrow> 0 \<le> ex \<Longrightarrow> z_powm a ex n = Inr (a ^ nat ex mod n)"
  by (simp add: z_powm_def)

lemma smod_small: "0 \<le> x \<Longrightarrow> x < n \<Longrightarrow> x smod n = (x::int)"
  by (cases "x = 0") (simp_all add: smod_int_alt_def)

lemma minus_one_squared_mod:
  fixes n :: int
  assumes "2 < n" "x mod n = n - 1"
  shows "(x * x) mod n = 1"
proof -
  have "(x * x) mod n = ((x mod n) * (x mod n)) mod n" by (simp add: mod_mult_eq)
  also have "\<dots> = ((n - 1) * (n - 1)) mod n" using assms by simp
  also have "(n - 1) * (n - 1) = 1 + n * (n - 2)" by (simp add: algebra_simps)
  also have "(1 + n * (n - 2)) mod n = 1" using assms by simp
  finally show ?thesis .
qed

lemma mr_loop_square:
  assumes "2 < n" "0 \<le> expp"
  shows "mr_loop rnd n q (Square trails a expp) pos
         = (if round_passes n expp a then mr_loop rnd n q (Trial (trails - 1)) pos
            else Some (Inr (False, pos)))"
proof -
  let ?pw = "a ^ nat expp mod n"
  have pw: "z_powm a expp n = Inr ?pw" using assms by (simp add: z_powm_nonneg)
  have rng: "0 \<le> ?pw" "?pw < n" using assms by simp_all
  have unf: "mr_loop rnd n q (Square trails a expp) pos
        = (if \<bar>?pw\<bar> = 1 then mr_loop rnd n q (Trial (trails - 1)) pos
           else if expp = n - 1 then Some (Inr (False, pos))
           else if ?pw smod n = n - 1
             then mr_loop rnd n q (Square trails a (expp * 2)) pos
           else Some (Inr (False, pos)))"
    by (subst mr_loop.simps) (simp add: pw)
  show ?thesis
  proof (cases "?pw = 1")
    case True
    then show ?thesis using unf by (simp add: round_passes_def)
  next
    case ne1: False
    then have abs1: "\<bar>?pw\<bar> \<noteq> 1" using rng by simp
    show ?thesis
    proof (cases "expp = n - 1")
      case True
      then show ?thesis using unf abs1 ne1 by (simp add: round_passes_def)
    next
      case neq: False
      show ?thesis
      proof (cases "?pw = n - 1")
        case True
        have "nat (expp * 2) = nat expp + nat expp" using assms by simp
        then have "a ^ nat (expp * 2) = a ^ nat expp * a ^ nat expp"
          by (simp add: power_add)
        with minus_one_squared_mod [OF assms(1) , of "a ^ nat expp"] True
        have "a ^ nat (expp * 2) mod n = 1" by simp
        then have pw2: "z_powm a (expp * 2) n = Inr 1"
          using assms by (simp add: z_powm_nonneg)
        have "mr_loop rnd n q (Square trails a (expp * 2)) pos
              = mr_loop rnd n q (Trial (trails - 1)) pos"
          by (subst mr_loop.simps) (simp add: pw2)
        moreover have "?pw smod n = n - 1" using True rng by (simp add: smod_small)
        ultimately show ?thesis using unf abs1 neq True by (simp add: round_passes_def)
      next
        case False
        then have "?pw smod n \<noteq> n - 1" using rng by (simp add: smod_small)
        then show ?thesis using unf abs1 neq ne1 False by (simp add: round_passes_def)
      qed
    qed
  qed
qed

lemma mr_loop_trial:
  assumes "2 < n" "trails \<noteq> 0"
  shows "mr_loop rnd n q (Trial trails) pos
         = mr_loop rnd n q (Square trails (draw_base rnd n pos) q) (Suc pos)"
proof -
  have "z_to_int64 (min n int64_max_int) = Inr (min n int64_max_int)"
    using assms by (simp add: z_to_int64_def int64_max_int_def)
  moreover have "\<not> min n int64_max_int \<le> 0"
    using assms by (simp add: int64_max_int_def)
  ultimately show ?thesis using assms(2)
    by (subst mr_loop.simps) (simp add: random_int64_def draw_base_def del: min_le_iff_disj)
qed

lemma mr_loop_round:
  assumes "2 < n" "0 \<le> q" "trails \<noteq> 0"
  shows "mr_loop rnd n q (Trial trails) pos
         = (if round_passes n q (draw_base rnd n pos)
            then mr_loop rnd n q (Trial (trails - 1)) (Suc pos)
            else Some (Inr (False, Suc pos)))"
  using assms by (simp add: mr_loop_trial mr_loop_square)

lemma mr_loop_all_pass:
  assumes "2 < n" "0 \<le> q"
    and "\<forall>i<k. round_passes n q (draw_base rnd n (pos + i))"
  shows "mr_loop rnd n q (Trial (int k)) pos = Some (Inr (True, pos + k))"
  using assms(3)
proof (induction k arbitrary: pos)
  case 0
  show ?case by (subst mr_loop.simps) simp
next
  case (Suc k)
  from Suc.prems have first: "round_passes n q (draw_base rnd n pos)" by force
  have "\<forall>i<k. round_passes n q (draw_base rnd n (Suc pos + i))"
    using Suc.prems by force
  from Suc.IH [OF this] first show ?case
    using mr_loop_round [OF assms(1,2), of "int (Suc k)" rnd pos] by simp
qed

lemma mr_loop_first_failure:
  assumes "2 < n" "0 \<le> q"
    and "j < k" 
    and "\<forall>i<j. round_passes n q (draw_base rnd n (pos + i))"
    and "\<not> round_passes n q (draw_base rnd n (pos + j))"
  shows "mr_loop rnd n q (Trial (int k)) pos = Some (Inr (False, pos + j + 1))"
  using assms(3-)
proof (induction j arbitrary: pos k)
  case 0
  then show ?case
    using mr_loop_round [OF assms(1,2), of "int k" rnd pos] by simp
next
  case (Suc j)
  from Suc.prems obtain k' where k: "k = Suc k'" "j < k'" by (cases k) auto
  from Suc.prems have first: "round_passes n q (draw_base rnd n pos)" by force
  have "\<forall>i<j. round_passes n q (draw_base rnd n (Suc pos + i))"
    using Suc.prems by force
  moreover have "\<not> round_passes n q (draw_base rnd n (Suc pos + j))"
    using Suc.prems by simp
  ultimately have "mr_loop rnd n q (Trial (int k')) (Suc pos) = Some (Inr (False, Suc pos + j + 1))"
    using Suc.IH [OF k(2)] by blast
  with first k show ?case
    using mr_loop_round [OF assms(1,2), of "int k" rnd pos] by simp
qed

lemma miller_rabin_test_same_base:
  assumes "2 < n" "get_factor_q (n - 1) = Some q" "0 \<le> q"
    and "\<forall>i<k. draw_base rnd n (pos + i) = a" and "round_passes n q a"
  shows "miller_rabin_test rnd (int k) n pos = Some (Inr (True, pos + k))"
proof -
  from assms(4,5) have "\<forall>i<k. round_passes n q (draw_base rnd n (pos + i))" by simp
  from mr_loop_all_pass [OF assms(1,3) this] assms(1,2) show ?thesis
    by (simp add: miller_rabin_test_def)
qed

lemma get_factor_q_odd: "odd num \<Longrightarrow> get_factor_q num = Some num"
proof -
  assume "odd num"
  then have "\<bar>num\<bar> mod 2 = 1" "num \<noteq> 0"
    by presburger+
  then have "num smod 2 \<noteq> 0"
    by (simp add: smod_int_alt_def sgn_if)
  then show ?thesis by (subst get_factor_q.simps) simp
qed

lemma mr_test_even_unfold:
  assumes "2 < n" "even n"
  shows "miller_rabin_test rnd trails n pos = mr_loop rnd n (n - 1) (Trial trails) pos"
  using assms by (simp add: miller_rabin_test_def get_factor_q_odd)

lemma round_passes_even:
  assumes "2 < n" "even n"
  shows "round_passes n (n - 1) a \<longleftrightarrow> a ^ nat (n - 1) mod n = 1"
  by (simp add: round_passes_def)

text \<open>
  C8, as the code has it. \<open>miller_rabin_test\<close> returns true for \<open>n = 2\<close> without drawing
  a base. For an even \<open>n > 2\<close> there is no shortcut: \<open>q\<close> is \<open>n - 1\<close>, every round draws a
  random base \<open>a\<close> and passes exactly when \<open>a ^ (n - 1) mod n = 1\<close>; the test returns true
  when all \<open>k\<close> rounds pass, having drawn \<open>k\<close> bases, and false at the first round that
  does not pass.
\<close>

theorem miller_rabin_test_even_no_shortcut:
  assumes "2 < n" and "even n"
  shows "miller_rabin_test rnd trails 2 pos = Some (Inr (True, pos))
       \<and> ((\<forall>i<k. draw_base rnd n (pos + i) ^ nat (n - 1) mod n = 1)
            \<longrightarrow> miller_rabin_test rnd (int k) n pos = Some (Inr (True, pos + k)))
       \<and> (\<forall>j<k. (\<forall>i<j. draw_base rnd n (pos + i) ^ nat (n - 1) mod n = 1)
                  \<and> draw_base rnd n (pos + j) ^ nat (n - 1) mod n \<noteq> 1
            \<longrightarrow> miller_rabin_test rnd (int k) n pos = Some (Inr (False, pos + j + 1)))"
proof (intro conjI impI allI)
  show "miller_rabin_test rnd trails 2 pos = Some (Inr (True, pos))"
    by (simp add: miller_rabin_test_def)
next
  assume "\<forall>i<k. draw_base rnd n (pos + i) ^ nat (n - 1) mod n = 1"
  then have "\<forall>i<k. round_passes n (n - 1) (draw_base rnd n (pos + i))"
    by (simp add: round_passes_even [OF assms])
  with assms show "miller_rabin_test rnd (int k) n pos = Some (Inr (True, pos + k))"
    by (simp add: mr_test_even_unfold mr_loop_all_pass)
next
  fix j
  assume j: "j < k"
    and "(\<forall>i<j. draw_base rnd n (pos + i) ^ nat (n - 1) mod n = 1)
         \<and> draw_base rnd n (pos + j) ^ nat (n - 1) mod n \<noteq> 1"
  then have "\<forall>i<j. round_passes n (n - 1) (draw_base rnd n (pos + i))"
    and "\<not> round_passes n (n - 1) (draw_base rnd n (pos + j))"
    by (simp_all add: round_passes_even [OF assms])
  with assms j show "miller_rabin_test rnd (int k) n pos = Some (Inr (False, pos + j + 1))"
    by (simp add: mr_test_even_unfold mr_loop_first_failure)
qed

theorem miller_rabin_test_even_no_shortcut_witness:
  "miller_rabin_test (const_rnd 2) (int 3) 6 0 = Some (Inr (False, 0 + 0 + 1))"
proof -
  have h1: "(2::int) < 6" and h2: "even (6::int)" by simp_all
  have "(0::nat) < 3" by simp
  moreover have "(\<forall>i<(0::nat). draw_base (const_rnd 2) 6 (0 + i) ^ nat (6 - 1) mod 6 = 1)
         \<and> draw_base (const_rnd 2) 6 (0 + 0) ^ nat (6 - 1) mod 6 \<noteq> 1"
    by (simp add: draw_base_def const_rnd_def int64_max_int_def)
  ultimately show ?thesis
    using miller_rabin_test_even_no_shortcut [OF h1 h2, of "const_rnd 2" 0 0 3] by blast
qed

text \<open>
  C8, as the specification has it, fails: \<open>28\<close> is even and above \<open>2\<close>, and when every
  base drawn is \<open>9\<close> the test runs its 50 randomized rounds, each of which finds
  \<open>9\<^sup>2\<^sup>7 mod 28 = 1\<close>, and returns true.
\<close>

theorem miller_rabin_test_even_counterexample:
  "(2::int) < 28 \<and> even (28::int)
   \<and> draw_base (const_rnd 9) 28 0 = 9
   \<and> miller_rabin_test (const_rnd 9) 50 28 0 = Some (Inr (True, 50))"
  by code_simp

text \<open>
  C2 at \<open>n = 5\<close>, one round, base \<open>2\<close>: \<open>n - 1 = 2\<^sup>2 \<sqdot> 1\<close>, and \<open>2\<^sup>1 mod 5\<close> is neither \<open>1\<close>
  nor \<open>4\<close>, but squaring it once gives \<open>4 = n - 1\<close>, so the round of the specification
  passes. The code squares only after it has found \<open>n - 1\<close> and returns false here.
\<close>

theorem miller_rabin_test_rejects_prime_5:
  "odd (5::int) \<and> (5::int) - 1 = 2 ^ 2 * 1
   \<and> draw_base (const_rnd 2) 5 0 = 2
   \<and> (2::int) ^ 1 mod 5 \<noteq> 1 \<and> (2::int) ^ 1 mod 5 \<noteq> 5 - 1
   \<and> ((2::int) ^ 1) ^ 2 mod 5 = 5 - 1
   \<and> miller_rabin_test (const_rnd 2) 1 5 0 = Some (Inr (False, 1))"
  by code_simp

subsection \<open>Key generation\<close>

lemma z_invert_eq:
  assumes "0 \<le> d" "d < \<bar>m\<bar>" "(d * a) mod \<bar>m\<bar> = 1 mod \<bar>m\<bar>"
  shows "z_invert a m = Inr d"
proof -
  let ?M = "\<bar>m\<bar>"
  let ?P = "\<lambda>r. (r * a) mod ?M = 1 mod ?M"
  have uniq: "r = d" if "0 \<le> r" "r < ?M" "?P r" for r
  proof -
    have "r mod ?M = (r * (1 mod ?M)) mod ?M" by (simp add: mod_mult_right_eq)
    also have "\<dots> = (r * ((d * a) mod ?M)) mod ?M" by (simp only: assms(3))
    also have "\<dots> = (r * (d * a)) mod ?M" by (simp only: mod_mult_right_eq)
    also have "r * (d * a) = d * (r * a)" by (simp add: ac_simps)
    also have "(d * (r * a)) mod ?M = (d * ((r * a) mod ?M)) mod ?M"
      by (simp only: mod_mult_right_eq)
    also have "\<dots> = (d * (1 mod ?M)) mod ?M" by (simp only: that(3))
    also have "\<dots> = d mod ?M" by (simp add: mod_mult_right_eq)
    finally show ?thesis using that(1,2) assms(1,2) by simp
  qed
  let ?xs = "[0 .. ?M - 1]"
  have len: "nat d < length ?xs" using assms(1,2) by simp
  have nth: "?xs ! j = int j" if "j < length ?xs" for j
    using that by simp
  have "find ?P ?xs = Some d"
    unfolding find_Some_iff
  proof (intro exI [of _ "nat d"] conjI allI impI)
    show "nat d < length ?xs" by (rule len)
    show "?P (?xs ! nat d)" using nth [OF len] assms(1,3) by simp
    show "d = ?xs ! nat d" using nth [OF len] assms(1) by simp
  next
    fix j assume j: "j < nat d"
    from this len have jl: "j < length ?xs" by (rule less_trans)
    show "\<not> ?P (?xs ! j)"
    proof
      assume "?P (?xs ! j)"
      then have "?P (int j)" using nth [OF jl] by simp
      moreover have "0 \<le> int j" "int j < ?M" using j assms(2) by simp_all
      ultimately have "int j = d" by (intro uniq)
      with j show False by simp
    qed
  qed
  then show ?thesis by (simp add: z_invert_def)
qed

lemma z_invert_inverse:
  assumes "z_invert a m = Inr d"
  shows "(d * a) mod \<bar>m\<bar> = 1 mod \<bar>m\<bar> \<and> 0 \<le> d \<and> d < \<bar>m\<bar>"
proof -
  from assms have "find (\<lambda>r. (r * a) mod \<bar>m\<bar> = 1 mod \<bar>m\<bar>) [0 .. \<bar>m\<bar> - 1] = Some d"
    by (simp add: z_invert_def split: option.splits)
  then have "(d * a) mod \<bar>m\<bar> = 1 mod \<bar>m\<bar>" and "d \<in> set [0 .. \<bar>m\<bar> - 1]"
    by (auto simp add: find_Some_iff in_set_conv_nth)
  then show ?thesis by simp
qed

lemma e_gen'_coprime:
  assumes "e_gen' rnd rc phi pos = Some r"
  shows "\<forall>e pos'. r = Inr (e, pos') \<longrightarrow> coprime_z e phi"
proof (rule e_gen'.raw_induct
    [where P = "\<lambda>rnd rc phi pos r. \<forall>e pos'. r = Inr (e, pos') \<longrightarrow> coprime_z e phi",
     OF _ assms], goal_cases)
  case (1 f rnd rc phi pos r)
  then show ?case
    by (auto split: option.splits sum.splits prod.splits if_splits)
qed

text \<open>
  C9. Every key pair that \<open>private_key_gen\<close> returns satisfies \<open>n = p \<sqdot> q\<close>,
  \<open>e \<sqdot> d \<equiv> 1 (mod (p - 1)(q - 1))\<close> and \<open>gcd(e, (p - 1)(q - 1)) = 1\<close>.
\<close>

theorem private_key_gen_invariant:
  assumes "private_key_gen rnd rc pos = Some (Inr (k, pos'))"
  shows "sk_n k = sk_p k * sk_q k
       \<and> (sk_e k * sk_d k) mod ((sk_p k - 1) * (sk_q k - 1)) = 1 mod ((sk_p k - 1) * (sk_q k - 1))
       \<and> gcd (sk_e k) ((sk_p k - 1) * (sk_q k - 1)) = 1"
proof -
  from assms obtain p q e d pos1 pos2 where
    k: "k = \<lparr>sk_n = p * q, sk_p = p, sk_q = q, sk_e = e, sk_d = d\<rparr>"
    and e: "e_gen rnd rc ((p - 1) * (q - 1)) pos2 = Some (Inr (e, pos'))"
    and d: "d_gen e ((p - 1) * (q - 1)) = Inr d"
    by (auto simp add: private_key_gen_def Let_def
             split: option.splits sum.splits prod.splits)
  let ?phi = "(p - 1) * (q - 1)"
  from e have cop: "gcd e ?phi = 1"
    using e_gen'_coprime [of rnd rc ?phi pos2 "Inr (e, pos')"]
    by (simp add: e_gen_def coprime_z_def)
  from d have "(d * e) mod \<bar>?phi\<bar> = 1 mod \<bar>?phi\<bar>"
    using z_invert_inverse [of e ?phi d] by (simp add: d_gen_def mod_minv_def)
  then have "\<bar>?phi\<bar> dvd d * e - 1" by (simp add: mod_eq_dvd_iff)
  then have "?phi dvd e * d - 1" by (simp add: mult.commute)
  then have "(e * d) mod ?phi = 1 mod ?phi" by (simp add: mod_eq_dvd_iff)
  with cop k show ?thesis by simp
qed

lemma key_rnd_run:
  "private_key_gen key_rnd \<lparr>p_len = 1, q_len = 2, e_len = 1\<rparr> 0
   = Some (Inr (\<lparr>sk_n = 77, sk_p = 7, sk_q = 11, sk_e = 7, sk_d = 43\<rparr>, 104))"
  by code_simp

theorem private_key_gen_invariant_witness:
  "private_key_gen key_rnd \<lparr>p_len = 1, q_len = 2, e_len = 1\<rparr> 0
     = Some (Inr (\<lparr>sk_n = 77, sk_p = 7, sk_q = 11, sk_e = 7, sk_d = 43\<rparr>, 104))
   \<and> sk_n \<lparr>sk_n = 77, sk_p = 7, sk_q = 11, sk_e = 7, sk_d = 43\<rparr>
       = sk_p \<lparr>sk_n = 77, sk_p = 7, sk_q = 11, sk_e = 7, sk_d = 43\<rparr>
         * sk_q \<lparr>sk_n = 77, sk_p = 7, sk_q = 11, sk_e = 7, sk_d = 43\<rparr>"
  using private_key_gen_invariant [OF key_rnd_run] key_rnd_run by blast


lemma z_gen_one: "z_gen rnd 1 pos = Some (Inr (int (rnd pos) mod 10, Suc pos))"
proof -
  have "z_gen' rnd 0 acc p = Some (Inr (acc, p))" for acc p
    by (subst z_gen'.simps) simp
  then show ?thesis
    unfolding z_gen_def by (subst z_gen'.simps) (simp add: random_int_def)
qed

lemma z_gen_two:
  "z_gen rnd 2 pos
   = Some (Inr (int (rnd pos) mod 10 * 10 + int (rnd (Suc pos)) mod 10, Suc (Suc pos)))"
proof -
  have "z_gen' rnd 0 acc p = Some (Inr (acc, p))" for acc p
    by (subst z_gen'.simps) simp
  then have "z_gen' rnd 1 acc p = Some (Inr (acc * 10 + int (rnd p) mod 10, Suc p))" for acc p
    by (subst z_gen'.simps) (simp add: random_int_def)
  then show ?thesis
    unfolding z_gen_def by (subst z_gen'.simps) (simp add: random_int_def)
qed

lemma get_factor_q_8: "get_factor_q 8 = Some 1"
  by code_simp

lemma get_factor_q_32: "get_factor_q 32 = Some 1"
  by code_simp

lemma miller_rabin_test_9_base_2:
  assumes "int (rnd pos) mod 9 = 2" and "trails \<noteq> 0"
  shows "miller_rabin_test rnd trails 9 pos = Some (Inr (False, Suc pos))"
proof -
  have "draw_base rnd 9 pos = 2"
    using assms by (simp add: draw_base_def int64_max_int_def)
  then have "\<not> round_passes 9 1 (draw_base rnd 9 pos)"
    by (simp add: round_passes_def)
  then have "mr_loop rnd 9 1 (Trial trails) pos = Some (Inr (False, Suc pos))"
    using mr_loop_round [of 9 1 trails rnd pos] assms by simp
  then show ?thesis
    by (simp add: miller_rabin_test_def get_factor_q_8)
qed

lemma miller_rabin_test_33_base_3:
  assumes "int (rnd pos) mod 33 = 3" and "trails \<noteq> 0"
  shows "miller_rabin_test rnd trails 33 pos = Some (Inr (False, Suc pos))"
proof -
  have "draw_base rnd 33 pos = 3"
    using assms by (simp add: draw_base_def int64_max_int_def)
  then have "\<not> round_passes 33 1 (draw_base rnd 33 pos)"
    by (simp add: round_passes_def)
  then have "mr_loop rnd 33 1 (Trial trails) pos = Some (Inr (False, Suc pos))"
    using mr_loop_round [of 33 1 trails rnd pos] assms by simp
  then show ?thesis
    by (simp add: miller_rabin_test_def get_factor_q_32)
qed

lemma prime_gen'_accept:
  assumes "z_gen rnd len pos = Some (Inr (p, pos1))"
    and "miller_rabin_test rnd trails p pos1 = Some (Inr (True, pos2))"
  shows "prime_gen' rnd trails len pos = Some (Inr (p, pos2))"
  using assms by (subst prime_gen'.simps) simp

lemma prime_gen'_reject:
  assumes "z_gen rnd len pos = Some (Inr (p, pos1))"
    and "miller_rabin_test rnd trails p pos1 = Some (Inr (False, pos2))"
  shows "prime_gen' rnd trails len pos = prime_gen' rnd trails len pos2"
  using assms by (subst prime_gen'.simps) simp

lemma prime_gen'_reject_9:
  assumes "rnd pos = 9" and "rnd (Suc pos) = 2" and "trails \<noteq> 0"
  shows "prime_gen' rnd trails 1 pos = prime_gen' rnd trails 1 (Suc (Suc pos))"
proof -
  have "z_gen rnd 1 pos = Some (Inr (9, Suc pos))"
    using assms by (simp add: z_gen_one)
  moreover have "miller_rabin_test rnd trails 9 (Suc pos) = Some (Inr (False, Suc (Suc pos)))"
    using assms by (simp add: miller_rabin_test_9_base_2)
  ultimately show ?thesis
    by (subst prime_gen'.simps) simp
qed

lemma prime_gen'_const_3_stuck: "prime_gen' (const_rnd 3) 50 2 pos = None"
proof (rule ccontr)
  assume "prime_gen' (const_rnd 3) 50 2 pos \<noteq> None"
  then obtain y where y: "prime_gen' (const_rnd 3) 50 2 pos = Some y" by auto
  have "rnd = const_rnd 3 \<and> trails = 50 \<and> len = 2 \<longrightarrow> False"
    if "prime_gen' rnd trails len pos = Some y" for rnd trails len pos y
  proof (rule prime_gen'.raw_induct
      [where P = "\<lambda>rnd trails len pos y. rnd = const_rnd 3 \<and> trails = 50 \<and> len = 2 \<longrightarrow> False",
       OF _ that], goal_cases)
    case (1 f rnd trails len pos y)
    show ?case
    proof
      assume a: "rnd = const_rnd 3 \<and> trails = 50 \<and> len = 2"
      then have "z_gen rnd len pos = Some (Inr (33, Suc (Suc pos)))"
        by (simp add: z_gen_two const_rnd_def)
      moreover have "miller_rabin_test rnd trails 33 (Suc (Suc pos))
                     = Some (Inr (False, Suc (Suc (Suc pos))))"
        using a by (simp add: miller_rabin_test_33_base_3 const_rnd_def)
      ultimately have "f rnd trails len (Suc (Suc (Suc pos))) = Some y"
        using 1(2) by simp
      from 1(1) [OF this] a show False by simp
    qed
  qed
  with y show False by blast
qed

text \<open>
  When the random source always draws 3, the prime search for two digits takes the
  candidate 33 and the base 3 at every attempt, the test rejects it, and
  \<open>private_key_gen\<close> neither returns nor fails.
\<close>

lemma private_key_gen_const_3_stuck:
  "private_key_gen (const_rnd 3) \<lparr>p_len = 2, q_len = 2, e_len = 1\<rparr> 0 = None"
  by (simp add: private_key_gen_def prime_gen_def prime_gen'_const_3_stuck)

lemma z_gen_zero: "z_gen rnd 0 pos = Some (Inr (0, pos))"
  unfolding z_gen_def by (subst z_gen'.simps) simp

lemma e_gen'_zero_length_stuck:
  assumes "e_len rc = 0" and "\<not> coprime_z 0 phi"
  shows "e_gen' rnd rc phi pos = None"
proof (rule ccontr)
  assume "e_gen' rnd rc phi pos \<noteq> None"
  then obtain y where y: "e_gen' rnd rc phi pos = Some y" by auto
  have "e_len rc = 0 \<and> \<not> coprime_z 0 phi \<longrightarrow> False"
    if "e_gen' rnd rc phi pos = Some y" for rnd rc phi pos y
  proof (rule e_gen'.raw_induct
      [where P = "\<lambda>rnd rc phi pos y. e_len rc = 0 \<and> \<not> coprime_z 0 phi \<longrightarrow> False",
       OF _ that], goal_cases)
    case (1 f rnd rc phi pos y)
    show ?case
    proof
      assume a: "e_len rc = 0 \<and> \<not> coprime_z 0 phi"
      then have "f rnd rc phi pos = Some y"
        using 1(2) by (simp add: z_gen_zero)
      from 1(1) [OF this] a show False by simp
    qed
  qed
  with y assms show False by blast
qed

lemma key_rnd_p: "prime_gen key_rnd 50 1 0 = Some (Inr (7, 51))"
  by code_simp

lemma key_rnd_q: "prime_gen key_rnd 50 2 51 = Some (Inr (11, 103))"
  by code_simp

text \<open>
  C5, as the specification has it, fails. With \<open>e_len = 0\<close> the only candidate for \<open>e\<close> is
  0, whatever the random source draws; once the primes 7 and 11 are found, \<open>gcd(0, 60)\<close>
  is not 1 at any attempt, and \<open>private_key_gen\<close> neither returns nor fails.
\<close>

theorem private_key_gen_stuck_counterexample:
  "private_key_gen key_rnd \<lparr>p_len = 1, q_len = 2, e_len = 0\<rparr> 0 = None"
proof -
  have "\<not> coprime_z 0 ((7 - 1) * (11 - 1))" by (simp add: coprime_z_def)
  then have "e_gen key_rnd \<lparr>p_len = 1, q_len = 2, e_len = 0\<rparr> ((7 - 1) * (11 - 1)) 103 = None"
    unfolding e_gen_def by (intro e_gen'_zero_length_stuck) simp_all
  then show ?thesis
    by (simp add: private_key_gen_def key_rnd_p key_rnd_q)
qed

lemma get_factor_q_6: "get_factor_q (7 - 1) = Some 3"
  by code_simp

lemma get_factor_q_10: "get_factor_q (11 - 1) = Some 5"
  by code_simp

lemma retry_rnd_p:
  "prime_gen' (retry_rnd N) 50 1 (2 * N) = Some (Inr (7, 2 * N + 51))"
proof -
  have z: "z_gen (retry_rnd N) 1 (2 * N) = Some (Inr (7, Suc (2 * N)))"
    by (simp add: z_gen_one retry_rnd_def key_rnd_def)
  have r: "round_passes 7 3 2" by (simp add: round_passes_def)
  have b: "\<forall>i<50. draw_base (retry_rnd N) 7 (Suc (2 * N) + i) = 2"
    by (simp add: draw_base_def retry_rnd_def key_rnd_def int64_max_int_def)
  from miller_rabin_test_same_base [OF _ get_factor_q_6 _ b r]
  have "miller_rabin_test (retry_rnd N) 50 7 (Suc (2 * N)) = Some (Inr (True, 2 * N + 51))"
    by simp
  from prime_gen'_accept [OF z this] show ?thesis .
qed

lemma retry_rnd_q:
  "prime_gen' (retry_rnd N) 50 2 (2 * N + 51) = Some (Inr (11, 2 * N + 103))"
proof -
  have z: "z_gen (retry_rnd N) 2 (2 * N + 51) = Some (Inr (11, 2 * N + 53))"
    by (simp add: z_gen_two retry_rnd_def key_rnd_def)
  have r: "round_passes 11 5 2" by (simp add: round_passes_def)
  have b: "\<forall>i<50. draw_base (retry_rnd N) 11 (2 * N + 53 + i) = 2"
    by (simp add: draw_base_def retry_rnd_def key_rnd_def int64_max_int_def)
  from miller_rabin_test_same_base [OF _ get_factor_q_10 _ b r]
  have "miller_rabin_test (retry_rnd N) 50 11 (2 * N + 53) = Some (Inr (True, 2 * N + 103))"
    by simp
  from prime_gen'_accept [OF z this] show ?thesis .
qed

lemma prime_gen'_retry_rnd:
  "k \<le> N \<Longrightarrow> prime_gen' (retry_rnd N) 50 1 (2 * (N - k)) = Some (Inr (7, 2 * N + 51))"
proof (induction k)
  case 0
  show ?case using retry_rnd_p [of N] by simp
next
  case (Suc k)
  let ?pos = "2 * (N - Suc k)"
  from Suc.prems have pos: "Suc (Suc ?pos) = 2 * (N - k)" by simp
  from Suc.prems have lt: "?pos < 2 * N" "Suc ?pos < 2 * N" by simp_all
  then have "retry_rnd N ?pos = 9" and "retry_rnd N (Suc ?pos) = 2"
    by (simp_all add: retry_rnd_def)
  then have "prime_gen' (retry_rnd N) 50 1 ?pos = prime_gen' (retry_rnd N) 50 1 (Suc (Suc ?pos))"
    by (intro prime_gen'_reject_9) simp_all
  with Suc pos show ?case by simp
qed

text \<open>
  C5, as the code has it. The retry loops \<open>prime_gen'\<close> and \<open>e_gen'\<close> have no attempt
  ceiling and no \<open>KeyGenerationFailed\<close> error; each retries until a candidate is accepted.
  For every \<open>N\<close> there is a random source on which the prime search for \<open>p\<close> rejects \<open>N\<close>
  candidates (the composite 9 on the base 2, two draws each) and \<open>private_key_gen\<close> then
  returns the key pair on the primes 7 and 11.
\<close>

theorem private_key_gen_unbounded_retries:
  "private_key_gen (retry_rnd N) \<lparr>p_len = 1, q_len = 2, e_len = 1\<rparr> 0
   = Some (Inr (\<lparr>sk_n = 77, sk_p = 7, sk_q = 11, sk_e = 7, sk_d = 43\<rparr>, 2 * N + 104))"
proof -
  have p: "prime_gen (retry_rnd N) 50 1 0 = Some (Inr (7, 2 * N + 51))"
    using prime_gen'_retry_rnd [of N N] by (simp add: prime_gen_def)
  have q: "prime_gen (retry_rnd N) 50 2 (2 * N + 51) = Some (Inr (11, 2 * N + 103))"
    by (simp add: prime_gen_def retry_rnd_q)
  have "z_gen (retry_rnd N) 1 (2 * N + 103) = Some (Inr (7, 2 * N + 104))"
    by (simp add: z_gen_one retry_rnd_def key_rnd_def)
  moreover have "coprime_z 7 60" by code_simp
  ultimately have e: "e_gen (retry_rnd N) \<lparr>p_len = 1, q_len = 2, e_len = 1\<rparr> 60 (2 * N + 103)
           = Some (Inr (7, 2 * N + 104))"
    unfolding e_gen_def by (subst e_gen'.simps) simp
  have d: "d_gen 7 60 = Inr 43"
    unfolding d_gen_def mod_minv_def by (rule z_invert_eq) simp_all
  show ?thesis
    by (simp add: private_key_gen_def p q e d)
qed

subsection \<open>The block encoding\<close>

lemma encode_append: "encode acc (s @ t) = encode (encode acc s) t"
  by (induction s arbitrary: acc) simp_all

lemma big_endian_value_snoc:
  "big_endian_value (s @ [x]) = big_endian_value s * 256 + of_char x"
proof -
  have "(\<Sum>i<length s. of_char ((s @ [x]) ! i) * (256::int) ^ (length s - i))
        = (\<Sum>i<length s. (of_char (s ! i) * 256 ^ (length s - 1 - i)) * 256)"
  proof (rule sum.cong)
    fix i assume "i \<in> {..<length s}"
    then have i: "i < length s" by simp
    then have "length s - i = Suc (length s - 1 - i)" by arith
    with i show "of_char ((s @ [x]) ! i) * (256::int) ^ (length s - i)
                 = (of_char (s ! i) * 256 ^ (length s - 1 - i)) * 256"
      by (simp add: nth_append)
  qed simp
  then show ?thesis
    by (simp add: big_endian_value_def sum_distrib_right)
qed

lemma encode_big_endian: "encode 0 s = big_endian_value s"
proof (induction s rule: rev_induct)
  case Nil
  show ?case by (simp add: big_endian_value_def)
next
  case (snoc x s)
  then show ?case by (simp add: encode_append big_endian_value_snoc)
qed

lemma encode_leading_zero: "encode 0 (CHR 0x00 # s) = encode 0 s"
  by simp

text \<open>
  C10. The block encoding of \<open>plaintext_input_string\<close> is the big-endian base-256 value
  of the byte string, and it is not injective: a string and the same string behind a
  zero byte are distinct, have the same encoding and so the same ciphertext under every
  public key, and no decryption function returns both from that ciphertext.
\<close>

theorem plaintext_input_string_not_injective:
  "message (plaintext_input_string s) = big_endian_value s
   \<and> CHR 0x00 # s \<noteq> s
   \<and> plaintext_input_string (CHR 0x00 # s) = plaintext_input_string s
   \<and> plaintext_encrypt (plaintext_input_string (CHR 0x00 # s)) pk
       = plaintext_encrypt (plaintext_input_string s) pk
   \<and> \<not> (\<exists>decrypt. decrypt (plaintext_encrypt (plaintext_input_string (CHR 0x00 # s)) pk)
                      = CHR 0x00 # s
                  \<and> decrypt (plaintext_encrypt (plaintext_input_string s) pk) = s)"
proof -
  have same: "plaintext_input_string (CHR 0x00 # s) = plaintext_input_string s"
    by (simp add: plaintext_input_string_def)
  show ?thesis
    unfolding same
    by (simp add: plaintext_input_string_def encode_big_endian)
qed

subsection \<open>Block encryption\<close>

text \<open>
  C4, as the code has it. \<open>plaintext_encrypt\<close> has no range check and no
  \<open>PlaintextTooLarge\<close> error: for a positive modulus and a non-negative exponent it
  returns \<open>m ^ e mod n\<close> for every integer \<open>m\<close>, inside \<open>[0, n)\<close> or not, which is the
  encryption of \<open>m mod n\<close>.
\<close>

theorem plaintext_encrypt_no_range_check:
  assumes "0 < n" and "0 \<le> e"
  shows "plaintext_encrypt \<lparr>message = m, types = t\<rparr> \<lparr>pk_n = n, pk_e = e\<rparr>
           = Inr \<lparr>c = (m ^ nat e) mod n, c_types = t\<rparr>
         \<and> plaintext_encrypt \<lparr>message = m, types = t\<rparr> \<lparr>pk_n = n, pk_e = e\<rparr>
           = plaintext_encrypt \<lparr>message = m mod n, types = t\<rparr> \<lparr>pk_n = n, pk_e = e\<rparr>"
  using assms by (simp add: plaintext_encrypt_def z_powm_def power_mod)

theorem plaintext_encrypt_no_range_check_witness:
  "(0::int) < 5 \<and> (0::int) \<le> 3
   \<and> plaintext_encrypt \<lparr>message = 7, types = ''String''\<rparr> \<lparr>pk_n = 5, pk_e = 3\<rparr>
       = Inr \<lparr>c = (7 ^ nat 3) mod 5, c_types = ''String''\<rparr>
   \<and> plaintext_encrypt \<lparr>message = 7, types = ''String''\<rparr> \<lparr>pk_n = 5, pk_e = 3\<rparr>
       = plaintext_encrypt \<lparr>message = 7 mod 5, types = ''String''\<rparr> \<lparr>pk_n = 5, pk_e = 3\<rparr>"
proof -
  have h1: "(0::int) < 5" and h2: "(0::int) \<le> 3" by simp_all
  from h1 h2 plaintext_encrypt_no_range_check [OF h1 h2, of 7 "''String''"]
  show ?thesis by blast
qed

text \<open>
  C4, as the specification has it, fails: the block \<open>7\<close> is not below the modulus
  \<open>5\<close>, and the encryption returns the ciphertext \<open>3\<close> instead of failing.
\<close>

theorem plaintext_encrypt_too_large_counterexample:
  "\<not> (0 \<le> (7::int) \<and> (7::int) < 5)
   \<and> plaintext_encrypt \<lparr>message = 7, types = ''String''\<rparr> \<lparr>pk_n = 5, pk_e = 3\<rparr>
       = Inr \<lparr>c = 3, c_types = ''String''\<rparr>"
  by (simp add: plaintext_encrypt_def z_powm_def)

subsection \<open>Chunks and \<open>encode_blocks\<close>\<close>

lemma chunks_Nil [simp]: "chunks k [] = []"
  by (simp add: chunks.simps)

lemma chunks_Cons:
  "0 < k \<Longrightarrow> xs \<noteq> [] \<Longrightarrow> chunks k xs = take k xs # chunks k (drop k xs)"
  by (subst chunks.simps) simp

lemma concat_chunks: "0 < k \<Longrightarrow> concat (chunks k xs) = xs"
proof (induction k xs rule: chunks.induct)
  case (1 k xs)
  show ?case
  proof (cases "xs = []")
    case True
    then show ?thesis by simp
  next
    case False
    with 1 show ?thesis by (simp add: chunks_Cons)
  qed
qed

lemma chunks_lengths:
  "0 < k \<Longrightarrow> i < length (chunks k xs) \<Longrightarrow>
     (if Suc i < length (chunks k xs) then length (chunks k xs ! i) = k
      else 0 < length (chunks k xs ! i) \<and> length (chunks k xs ! i) \<le> k)"
proof (induction k xs arbitrary: i rule: chunks.induct)
  case (1 k xs)
  show ?case
  proof (cases "xs = []")
    case True
    with 1 show ?thesis by simp
  next
    case False
    then have unf: "chunks k xs = take k xs # chunks k (drop k xs)"
      using 1 by (simp add: chunks_Cons)
    show ?thesis
    proof (cases i)
      case 0
      show ?thesis
      proof (cases "chunks k (drop k xs) = []")
        case True
        with 0 unf False 1 show ?thesis by simp
      next
        case ne: False
        then have "drop k xs \<noteq> []" by auto
        then have "k < length xs" by simp
        with 0 unf ne show ?thesis by simp
      qed
    next
      case (Suc j)
      with 1(3) unf have j: "j < length (chunks k (drop k xs))" by simp
      from 1(1) [OF _ 1(2) j] False 1(2) have
        "if Suc j < length (chunks k (drop k xs))
         then length (chunks k (drop k xs) ! j) = k
         else 0 < length (chunks k (drop k xs) ! j) \<and> length (chunks k (drop k xs) ! j) \<le> k"
        by simp
      with Suc unf show ?thesis by (simp split: if_splits)
    qed
  qed
qed

lemma plaintext_encrypt_block:
  assumes "0 < pk_n pk" "0 \<le> pk_e pk"
  shows "plaintext_encrypt (plaintext_input_string block) pk
         = Inr \<lparr>c = encrypt_chunk pk block, c_types = ''String''\<rparr>"
  using assms
  by (simp add: plaintext_encrypt_def plaintext_input_string_def z_powm_nonneg
                encrypt_chunk_def encode_big_endian)

lemma encode_blocks_acc:
  assumes "1 \<le> bs" "0 < pk_n pk" "0 \<le> pk_e pk"
  shows "encode_blocks bs pk msg acc
         = Some (Inr (rev acc @ map (\<lambda>b. serialize_ciphertext (encrypt_chunk pk b))
                                   (chunks (nat bs) msg)))"
proof (induction "length msg" arbitrary: msg acc rule: less_induct)
  case less
  show ?case
  proof (cases "msg = []")
    case True
    then show ?thesis by (subst encode_blocks.simps) simp
  next
    case False
    let ?k = "nat bs"
    let ?m = "min bs (int (length msg))"
    have k: "0 < ?k" using assms by simp
    have m: "?m = int (min ?k (length msg))" using assms by simp
    have m1: "0 < min ?k (length msg)" using k False by simp
    have "take (min ?k (length msg)) msg = take ?k msg"
      by (simp add: min_def)
    then have blk: "string_sub msg 0 ?m = Inr (take ?k msg)"
      unfolding m by (simp add: string_sub_def)
    have rem: "string_sub msg ?m (int (length msg) - ?m) = Inr (drop ?k msg)"
      unfolding m by (simp add: string_sub_def min_def)
    have "length (drop ?k msg) < length msg" using k False by simp
    from less [OF this]
    have ih: "encode_blocks bs pk (drop ?k msg) acc'
          = Some (Inr (rev acc' @ map (\<lambda>b. serialize_ciphertext (encrypt_chunk pk b))
                                    (chunks ?k (drop ?k msg))))" for acc' .
    have "encode_blocks bs pk msg acc
          = encode_blocks bs pk (drop ?k msg)
              (serialize_ciphertext (encrypt_chunk pk (take ?k msg)) # acc)"
      using False blk rem plaintext_encrypt_block [OF assms(2,3)]
      by (subst encode_blocks.simps) (simp add: Let_def)
    then show ?thesis
      using ih chunks_Cons [OF k False] by simp
  qed
qed

subsection \<open>RSA on two distinct primes\<close>

lemma is_prime_divisor:
  assumes "is_prime p" "m dvd p"
  shows "m = 1 \<or> m = p"
proof -
  from assms have "0 < p" by (simp add: is_prime_def)
  with assms(2) have "m \<le> p" "0 < m" by (auto dest: dvd_imp_le intro: Nat.gr0I)
  show ?thesis
  proof (rule ccontr)
    assume "\<not> (m = 1 \<or> m = p)"
    with \<open>m \<le> p\<close> \<open>0 < m\<close> have "m \<in> {2..<p}" by auto
    with assms show False by (auto simp add: is_prime_def)
  qed
qed

lemma is_prime_coprime_less:
  assumes "is_prime p" "0 < k" "k < p"
  shows "coprime p k"
proof -
  have "gcd p k dvd p" by simp
  with assms(1) have "gcd p k = 1 \<or> gcd p k = p" by (rule is_prime_divisor)
  moreover have "gcd p k \<noteq> p"
  proof
    assume "gcd p k = p"
    then have "p dvd k" by (metis gcd_dvd2)
    with assms(2) have "p \<le> k" by (auto dest: dvd_imp_le)
    with assms(3) show False by simp
  qed
  ultimately show ?thesis by (simp add: coprime_iff_gcd_eq_1)
qed

lemma is_prime_coprime_distinct:
  assumes "is_prime p" "is_prime q" "p \<noteq> q"
  shows "coprime p q"
proof -
  have "gcd p q dvd p" by simp
  with assms(1) have 1: "gcd p q = 1 \<or> gcd p q = p" by (rule is_prime_divisor)
  have "gcd p q dvd q" by simp
  with assms(2) have 2: "gcd p q = 1 \<or> gcd p q = q" by (rule is_prime_divisor)
  from 1 2 assms(3) have "gcd p q = 1" by auto
  then show ?thesis by (simp only: coprime_iff_gcd_eq_1)
qed

lemma is_prime_dvd_choose:
  assumes "is_prime p" "0 < k" "k < p"
  shows "p dvd (p choose k)"
proof -
  have "k * (p choose k) = p * ((p - 1) choose (k - 1))"
    using assms(2) by (rule times_binomial_minus1_eq)
  then have "p dvd k * (p choose k)" by simp
  moreover have "coprime p k" using assms by (rule is_prime_coprime_less)
  ultimately show ?thesis by (simp add: coprime_dvd_mult_right_iff)
qed

lemma fermat_step:
  assumes "is_prime p"
  shows "(Suc a) ^ p mod p = (a ^ p + 1) mod p"
proof -
  let ?f = "\<lambda>k. (p choose k) * a ^ k"
  have p: "0 < p" using assms by (simp add: is_prime_def)
  have "(a + 1) ^ p = (\<Sum>k\<le>p. ?f k)"
    using binomial [of a 1 p] by (simp add: mult.commute)
  then have "(Suc a) ^ p = (\<Sum>k\<le>p. ?f k)" by simp
  then have "(Suc a) ^ p mod p = (\<Sum>k\<le>p. ?f k mod p) mod p"
    by (simp only: mod_sum_eq)
  moreover have "(\<Sum>k\<le>p. ?f k mod p) = (\<Sum>k\<in>{0, p}. ?f k mod p)"
  proof (rule sum.mono_neutral_right)
    show "\<forall>k\<in>{..p} - {0, p}. ?f k mod p = 0"
    proof
      fix k assume "k \<in> {..p} - {0, p}"
      then have "0 < k" "k < p" by auto
      with assms have "p dvd (p choose k)" by (rule is_prime_dvd_choose)
      then show "?f k mod p = 0" by simp
    qed
  qed simp_all
  moreover have "(\<Sum>k\<in>{0, p}. ?f k mod p) = 1 mod p + a ^ p mod p"
    using p by simp
  ultimately have "(Suc a) ^ p mod p = (1 mod p + a ^ p mod p) mod p"
    by (simp only:)
  also have "\<dots> = (1 + a ^ p) mod p" by (simp only: mod_add_eq)
  finally show ?thesis by (simp only: add.commute)
qed

lemma fermat_little:
  assumes "is_prime p"
  shows "a ^ p mod p = a mod p"
proof (induction a)
  case 0
  from assms have "0 < p" by (simp add: is_prime_def)
  then show ?case by (simp add: zero_power)
next
  case (Suc a)
  have "(Suc a) ^ p mod p = (a ^ p + 1) mod p" by (rule fermat_step [OF assms])
  also have "\<dots> = (a ^ p mod p + 1) mod p" by (simp only: mod_add_left_eq)
  also have "\<dots> = (a mod p + 1) mod p" by (simp only: Suc)
  also have "\<dots> = (a + 1) mod p" by (simp only: mod_add_left_eq)
  finally show ?case by simp
qed

lemma fermat_iterated:
  assumes "is_prime p"
  shows "a ^ (1 + k * (p - 1)) mod p = a mod p"
proof (induction k)
  case 0
  show ?case by simp
next
  case (Suc k)
  from assms have p: "0 < p" by (simp add: is_prime_def)
  have "1 + Suc k * (p - 1) = (1 + k * (p - 1)) + (p - 1)" by simp
  then have "a ^ (1 + Suc k * (p - 1)) = a ^ (1 + k * (p - 1)) * a ^ (p - 1)"
    by (simp only: power_add)
  then have "a ^ (1 + Suc k * (p - 1)) mod p = (a ^ (1 + k * (p - 1)) mod p) * a ^ (p - 1) mod p"
    by (simp only: mod_mult_left_eq)
  also have "\<dots> = (a mod p) * a ^ (p - 1) mod p" by (simp only: Suc)
  also have "\<dots> = (a * a ^ (p - 1)) mod p" by (simp only: mod_mult_left_eq)
  also have "a * a ^ (p - 1) = a ^ p"
    using p by (cases p) simp_all
  finally show ?case by (simp only: fermat_little [OF assms])
qed

lemma rsa_exponent_nat:
  assumes "is_prime p" "is_prime q" "p \<noteq> q" "a < p * q"
  shows "a ^ (1 + t * ((p - 1) * (q - 1))) mod (p * q) = a"
proof -
  let ?x = "a ^ (1 + t * ((p - 1) * (q - 1)))"
  have "?x mod p = a mod p"
    using fermat_iterated [OF assms(1), of a "t * (q - 1)"] by (simp add: ac_simps)
  moreover have "?x mod q = a mod q"
    using fermat_iterated [OF assms(2), of a "t * (p - 1)"] by (simp add: ac_simps)
  moreover have ge: "a \<le> ?x"
  proof (cases "a = 0")
    case False
    then have "a ^ 1 \<le> ?x" by (intro power_increasing) simp_all
    then show ?thesis by simp
  qed simp
  ultimately have "p dvd ?x - a" "q dvd ?x - a"
    by (simp_all add: mod_eq_dvd_iff_nat)
  moreover have "coprime p q" using assms(1-3) by (rule is_prime_coprime_distinct)
  ultimately have "p * q dvd ?x - a" by (simp add: divides_mult)
  then have "?x mod (p * q) = a mod (p * q)"
    using ge by (simp add: mod_eq_dvd_iff_nat)
  with assms(4) show ?thesis by simp
qed

lemma rsa_roundtrip_int:
  assumes primes: "is_prime (nat p)" "is_prime (nat q)" "p \<noteq> q"
    and ed: "(e * d) mod ((p - 1) * (q - 1)) = 1 mod ((p - 1) * (q - 1))" "0 \<le> e" "0 \<le> d"
    and m: "0 \<le> m" "m < p * q"
  shows "((m ^ nat e mod (p * q)) ^ nat d) mod (p * q) = m"
proof -
  from primes have p: "2 \<le> p" and q: "2 \<le> q" by (simp_all add: is_prime_def)
  with primes(3) have "3 \<le> p \<or> 3 \<le> q" by arith
  then have phi: "2 \<le> (p - 1) * (q - 1)"
  proof
    assume "3 \<le> p"
    then have "2 * 1 \<le> (p - 1) * (q - 1)" using q by (intro mult_mono) simp_all
    then show ?thesis by simp
  next
    assume "3 \<le> q"
    then have "1 * 2 \<le> (p - 1) * (q - 1)" using p by (intro mult_mono) simp_all
    then show ?thesis by simp
  qed
  let ?phi = "(p - 1) * (q - 1)"
  let ?t = "(e * d) div ?phi"
  from ed(1) phi have "(e * d) mod ?phi = 1" by simp
  then have eq: "e * d = ?t * ?phi + 1"
    using div_mult_mod_eq [of "e * d" ?phi] by simp
  have t: "0 \<le> ?t" using ed(2,3) phi by (simp add: pos_imp_zdiv_nonneg_iff)
  have "nat (e * d) = nat (?t * ?phi + 1)" using eq by simp
  also have "\<dots> = 1 + nat ?t * ((nat p - 1) * (nat q - 1))"
    using t p q phi by (simp add: nat_add_distrib nat_mult_distrib nat_diff_distrib)
  finally have ex: "nat e * nat d = 1 + nat ?t * ((nat p - 1) * (nat q - 1))"
    using ed(2,3) by (simp add: nat_mult_distrib)
  have "nat m < nat p * nat q"
    using m p q by (simp add: nat_mult_distrib [symmetric] nat_less_iff)
  from rsa_exponent_nat [OF primes(1,2) _ this, of "nat ?t"] primes(3) p q
  have "nat m ^ (nat e * nat d) mod (nat p * nat q) = nat m"
    by (simp add: ex)
  then have "int (nat m ^ (nat e * nat d) mod (nat p * nat q)) = int (nat m)" by simp
  then have "m ^ (nat e * nat d) mod (p * q) = m"
    using m p q by (simp add: zmod_int)
  moreover have "((m ^ nat e mod (p * q)) ^ nat d) mod (p * q) = m ^ (nat e * nat d) mod (p * q)"
    by (simp add: power_mod power_mult)
  ultimately show ?thesis by simp
qed

subsection \<open>Blocks are below the modulus and decode to themselves\<close>

lemma numbits_nat_lower: "0 < k \<Longrightarrow> 2 ^ (numbits_nat k - 1) \<le> k"
proof (induction k rule: numbits_nat.induct)
  case (1 k)
  show ?case
  proof (cases "k div 2 = 0")
    case True
    with 1(2) have "k = 1" by presburger
    moreover have "numbits_nat (Suc 0) = Suc 0"
      by (simp add: numbits_nat.simps [of "Suc 0"] numbits_nat.simps [of 0])
    ultimately show ?thesis by simp
  next
    case False
    then have "0 < k div 2" by simp
    with 1 have ih: "2 ^ (numbits_nat (k div 2) - 1) \<le> k div 2" by simp
    have nb: "numbits_nat k = Suc (numbits_nat (k div 2))"
      using 1(2) by (subst numbits_nat.simps) simp
    have "0 < numbits_nat (k div 2)"
      using \<open>0 < k div 2\<close> by (subst numbits_nat.simps) simp
    then have "(2::nat) ^ (numbits_nat k - 1) = 2 * 2 ^ (numbits_nat (k div 2) - 1)"
      unfolding nb by (cases "numbits_nat (k div 2)") simp_all
    also have "\<dots> \<le> 2 * (k div 2)" using ih by simp
    also have "\<dots> \<le> k" by simp
    finally show ?thesis .
  qed
qed

lemma big_endian_value_range:
  "0 \<le> big_endian_value s \<and> big_endian_value s < 256 ^ length s"
proof (induction s rule: rev_induct)
  case Nil
  show ?case by (simp add: big_endian_value_def)
next
  case (snoc x s)
  have "0 \<le> (of_char x :: int)" "(of_char x :: int) < 256"
    using of_char_int_range [of x] by simp_all
  moreover from snoc have "big_endian_value s + 1 \<le> 256 ^ length s" by simp
  then have "(big_endian_value s + 1) * 256 \<le> 256 ^ length s * 256"
    by (rule mult_right_mono) simp
  ultimately show ?case using snoc
    by (simp add: big_endian_value_snoc algebra_simps)
qed

lemma block_below_modulus:
  assumes "0 < n" "16 \<le> z_numbits n" "int (length b) \<le> block_size_of n"
  shows "big_endian_value b < n"
proof -
  let ?N = "numbits_nat (nat n)"
  have N: "z_numbits n = int ?N" using assms(1) by (simp add: z_numbits_def)
  with assms(2) have N16: "16 \<le> ?N" by simp
  have bs: "block_size_of n = int (?N div 8) - 1"
    using N16 by (simp add: block_size_of_def N signed_divide_int_def zdiv_int sgn_if)
  with assms(3) have "length b + 1 \<le> ?N div 8" by simp
  then have "8 * length b + 8 \<le> ?N" by simp
  then have le: "8 * length b \<le> ?N - 1" by simp
  have "big_endian_value b < 256 ^ length b" using big_endian_value_range by simp
  also have "(256::int) ^ length b = 2 ^ (8 * length b)"
    by (simp add: power_mult)
  also have "\<dots> \<le> 2 ^ (?N - 1)" using le by (intro power_increasing) simp_all
  also have "\<dots> \<le> n"
  proof -
    have "2 ^ (?N - 1) \<le> nat n" using assms(1) by (intro numbits_nat_lower) simp
    then have "int (2 ^ (?N - 1)) \<le> int (nat n)" by (simp only: of_nat_le_iff)
    then show ?thesis using assms(1) by simp
  qed
  finally show ?thesis .
qed

lemma int_to_bytes_nonempty: "0 < m \<Longrightarrow> int_to_bytes m \<noteq> []"
  by (subst int_to_bytes.simps) simp

lemma int_to_bytes_big_endian_value:
  "s = [] \<or> hd s \<noteq> CHR 0x00 \<Longrightarrow> int_to_bytes (big_endian_value s) = s"
proof (induction s rule: rev_induct)
  case Nil
  show ?case by (simp add: big_endian_value_def int_to_bytes.simps)
next
  case (snoc x s)
  have x: "0 \<le> (of_char x :: int)" "(of_char x :: int) < 256"
    using of_char_int_range [of x] by simp_all
  have v: "big_endian_value (s @ [x]) = big_endian_value s * 256 + of_char x"
    by (rule big_endian_value_snoc)
  have dm: "big_endian_value (s @ [x]) div 256 = big_endian_value s"
    "big_endian_value (s @ [x]) mod 256 = of_char x"
    using x unfolding v by simp_all
  show ?case
  proof (cases "s = []")
    case True
    with snoc.prems have "x \<noteq> CHR 0x00" by simp
    moreover have "(of_char (CHR 0x00) :: int) = 0" by simp
    ultimately have "(of_char x :: int) \<noteq> 0"
      by (metis of_char_eq_iff)
    with x have pos: "0 < big_endian_value (s @ [x])"
      using True by (simp add: v big_endian_value_def)
    have "big_endian_value s = 0" using True by (simp add: big_endian_value_def)
    with dm have "int_to_bytes (big_endian_value (s @ [x]) div 256) = []"
      by (simp add: int_to_bytes.simps [of 0])
    with pos dm(2) True show ?thesis
      by (subst int_to_bytes.simps) simp
  next
    case False
    with snoc.prems have "hd s \<noteq> CHR 0x00" by simp
    with snoc.IH have ih: "int_to_bytes (big_endian_value s) = s" by simp
    have "0 < big_endian_value s"
    proof (rule ccontr)
      assume "\<not> 0 < big_endian_value s"
      then have "int_to_bytes (big_endian_value s) = []"
        by (subst int_to_bytes.simps) simp
      with ih False show False by simp
    qed
    then have pos: "0 < big_endian_value (s @ [x])" using x unfolding v by simp
    show ?thesis
      using pos dm ih by (subst int_to_bytes.simps) simp
  qed
qed

subsection \<open>Message encryption\<close>

lemma block_size_of_pos:
  assumes "16 \<le> z_numbits n"
  shows "1 \<le> block_size_of n \<and> block_size_of n = z_numbits n div 8 - 1"
proof -
  have "z_numbits n sdiv 8 = z_numbits n div 8"
    using assms by (simp add: signed_divide_int_def sgn_if)
  moreover have "2 \<le> z_numbits n div 8" using assms by simp
  ultimately show ?thesis by (simp add: block_size_of_def)
qed

lemma chunks_set:
  "0 < k \<Longrightarrow> b \<in> set (chunks k xs) \<Longrightarrow> b \<noteq> [] \<and> length b \<le> k"
proof (induction k xs rule: chunks.induct)
  case (1 k xs)
  show ?case
  proof (cases "xs = []")
    case True
    with 1 show ?thesis by simp
  next
    case False
    with 1(2,3) have "b = take k xs \<or> b \<in> set (chunks k (drop k xs))"
      by (simp add: chunks_Cons)
    then show ?thesis
    proof
      assume "b = take k xs"
      with False 1(2) show ?thesis by simp
    next
      assume "b \<in> set (chunks k (drop k xs))"
      with 1 False show ?thesis by simp
    qed
  qed
qed

text \<open>
  C6, for a modulus of at least 16 bits. \<open>encode_blocks\<close>, with the block size
  \<open>\<lfloor>bitLength(n) / 8\<rfloor> - 1\<close> of \<open>encrypt_and_return_message\<close>, returns the serialized
  ciphertexts of the consecutive chunks of the message in their order: the chunks
  concatenate to the message, every chunk but the last has exactly the block size and
  the last is not empty and not longer, and each chunk is encrypted on its own as its
  big-endian value to the power \<open>e\<close> modulo \<open>n\<close>.
\<close>

theorem encode_blocks_chunks:
  assumes "0 < pk_n pk" and "0 \<le> pk_e pk" and "16 \<le> z_numbits (pk_n pk)"
  shows "encode_blocks (block_size_of (pk_n pk)) pk msg []
           = Some (Inr (map (\<lambda>b. serialize_ciphertext
                                   (big_endian_value b ^ nat (pk_e pk) mod pk_n pk))
                            (chunks (nat (block_size_of (pk_n pk))) msg)))
       \<and> block_size_of (pk_n pk) = z_numbits (pk_n pk) div 8 - 1
       \<and> concat (chunks (nat (block_size_of (pk_n pk))) msg) = msg
       \<and> (\<forall>i<length (chunks (nat (block_size_of (pk_n pk))) msg).
             if Suc i < length (chunks (nat (block_size_of (pk_n pk))) msg)
             then length (chunks (nat (block_size_of (pk_n pk))) msg ! i)
                    = nat (block_size_of (pk_n pk))
             else 0 < length (chunks (nat (block_size_of (pk_n pk))) msg ! i)
                  \<and> length (chunks (nat (block_size_of (pk_n pk))) msg ! i)
                        \<le> nat (block_size_of (pk_n pk)))"
proof -
  let ?bs = "block_size_of (pk_n pk)"
  from block_size_of_pos [OF assms(3)]
  have bs: "1 \<le> ?bs" and eq: "?bs = z_numbits (pk_n pk) div 8 - 1" by simp_all
  then have k: "0 < nat ?bs" by simp
  have "encode_blocks ?bs pk msg []
        = Some (Inr (map (\<lambda>b. serialize_ciphertext (encrypt_chunk pk b)) (chunks (nat ?bs) msg)))"
    using encode_blocks_acc [OF bs assms(1,2), of msg "[]"] by simp
  then have "encode_blocks ?bs pk msg []
        = Some (Inr (map (\<lambda>b. serialize_ciphertext
                                (big_endian_value b ^ nat (pk_e pk) mod pk_n pk))
                         (chunks (nat ?bs) msg)))"
    by (simp add: encrypt_chunk_def)
  moreover have "concat (chunks (nat ?bs) msg) = msg"
    using k by (rule concat_chunks)
  moreover have "\<forall>i<length (chunks (nat ?bs) msg).
             if Suc i < length (chunks (nat ?bs) msg)
             then length (chunks (nat ?bs) msg ! i) = nat ?bs
             else 0 < length (chunks (nat ?bs) msg ! i)
                  \<and> length (chunks (nat ?bs) msg ! i) \<le> nat ?bs"
    using chunks_lengths [OF k] by blast
  ultimately show ?thesis using eq by blast
qed

lemma z_numbits_rsa_key: "z_numbits 8469787 = 24"
  by (simp add: z_numbits_def numbits_nat.simps)

theorem encode_blocks_chunks_witness:
  "encode_blocks (block_size_of (pk_n \<lparr>pk_n = 8469787, pk_e = 769451\<rparr>))
      \<lparr>pk_n = 8469787, pk_e = 769451\<rparr> ''OCaml'' []
   = Some (Inr (map (\<lambda>b. serialize_ciphertext
                            (big_endian_value b ^ nat (pk_e \<lparr>pk_n = 8469787, pk_e = 769451\<rparr>)
                               mod pk_n \<lparr>pk_n = 8469787, pk_e = 769451\<rparr>))
                    (chunks (nat (block_size_of (pk_n \<lparr>pk_n = 8469787, pk_e = 769451\<rparr>)))
                       ''OCaml'')))"
proof -
  let ?pk = "\<lparr>pk_n = 8469787, pk_e = 769451\<rparr>"
  have h1: "0 < pk_n ?pk" and h2: "0 \<le> pk_e ?pk" by simp_all
  have h3: "16 \<le> z_numbits (pk_n ?pk)" by (simp add: z_numbits_rsa_key)
  from encode_blocks_chunks [OF h1 h2 h3, of "''OCaml''"] show ?thesis by blast
qed

text \<open>
  C6, for every public key, fails: the modulus 77 of the key pair that \<open>private_key_gen\<close>
  returns on the source \<open>key_rnd\<close> has 7 bits, the block size is \<open>-1\<close> and \<open>String.sub\<close>
  raises \<open>Invalid_argument\<close> on a one-byte message.
\<close>

theorem encode_blocks_small_modulus_counterexample:
  "block_size_of 77 = - 1
   \<and> encode_blocks (block_size_of 77) \<lparr>pk_n = 77, pk_e = 7\<rparr> ''A'' []
       = Some (Inl (Invalid_argument ''String.sub / Bytes.sub''))
   \<and> encrypt_and_return_message key_rnd ''A'' \<lparr>p_len = 1, q_len = 2, e_len = 1\<rparr> 0
       = Some (Inl (Invalid_argument ''String.sub / Bytes.sub''))"
proof -
  have bs: "block_size_of 77 = - 1" by code_simp
  have enc: "encode_blocks (- 1) \<lparr>pk_n = 77, pk_e = 7\<rparr> ''A'' []
             = Some (Inl (Invalid_argument ''String.sub / Bytes.sub''))"
    by code_simp
  have "encrypt_and_return_message key_rnd ''A'' \<lparr>p_len = 1, q_len = 2, e_len = 1\<rparr> 0
        = Some (Inl (Invalid_argument ''String.sub / Bytes.sub''))"
    by (simp add: encrypt_and_return_message_def private_key_gen_and_save_def key_rnd_run
                  public_key_gen_def bs enc)
  with bs enc show ?thesis by simp
qed

subsection \<open>Key pairs that \<open>private_key_gen\<close> returns\<close>

lemma pow_mod_correct: "pow_mod x k m = x ^ k mod m"
proof (induction x k m rule: pow_mod.induct)
  case (1 x k m)
  show ?case
  proof (cases "k = 0")
    case True
    then show ?thesis by (subst pow_mod.simps) simp
  next
    case False
    have sq: "((x * x) mod m) ^ (k div 2) mod m = x ^ (2 * (k div 2)) mod m"
      by (simp add: power_mod power_mult power2_eq_square)
    show ?thesis
    proof (cases "even k")
      case True
      then have "2 * (k div 2) = k" by simp
      with 1(1) [OF False True] sq False True show ?thesis
        by (subst pow_mod.simps) simp
    next
      case odd: False
      then have k: "k = Suc (2 * (k div 2))" by presburger
      have "x ^ k mod m = (x * x ^ (2 * (k div 2))) mod m"
        by (subst k) simp
      also have "\<dots> = (x * (x ^ (2 * (k div 2)) mod m)) mod m"
        by (simp only: mod_mult_right_eq)
      finally show ?thesis
        using 1(2) [OF False odd] sq False odd by (subst pow_mod.simps) simp
    qed
  qed
qed

lemma z_gen'_unfold:
  "z_gen' rnd len acc pos =
     (if len = 0 then Some (Inr (acc, pos))
      else z_gen' rnd (len - 1) (acc * 10 + int (rnd pos) mod 10) (Suc pos))"
  by (subst z_gen'.simps) (simp add: random_int_def)

lemma rsa_rnd_p: "prime_gen rsa_rnd 50 4 0 = Some (Inr (2767, 54))"
proof -
  have z: "z_gen rsa_rnd 4 0 = Some (Inr (2767, 4))"
    by (simp add: z_gen_def z_gen'_unfold rsa_rnd_def)
  have q: "get_factor_q (2767 - 1) = Some 1383" by code_simp
  have "pow_mod 4 1383 2767 = 1" by (simp add: pow_mod.simps)
  then have "(4::int) ^ 1383 mod 2767 = 1" by (simp only: pow_mod_correct)
  then have "(4::int) ^ nat 1383 mod 2767 = 1" by (simp only: nat_numeral)
  then have r: "round_passes 2767 1383 4" by (simp only: round_passes_def simp_thms)
  have b: "\<forall>i<50. draw_base rsa_rnd 2767 (4 + i) = 4"
    by (simp add: draw_base_def rsa_rnd_def int64_max_int_def)
  from miller_rabin_test_same_base [OF _ q _ b r]
  have "miller_rabin_test rsa_rnd 50 2767 4 = Some (Inr (True, 54))" by simp
  with z show ?thesis
    unfolding prime_gen_def by (subst prime_gen'.simps) simp
qed

lemma rsa_rnd_q: "prime_gen rsa_rnd 50 4 54 = Some (Inr (3061, 108))"
proof -
  have z: "z_gen rsa_rnd 4 54 = Some (Inr (3061, 58))"
    by (simp add: z_gen_def z_gen'_unfold rsa_rnd_def)
  have q: "get_factor_q (3061 - 1) = Some 765" by code_simp
  have "pow_mod 4 765 3061 = 3061 - 1" by (simp add: pow_mod.simps)
  then have "(4::int) ^ 765 mod 3061 = 3061 - 1" by (simp only: pow_mod_correct)
  then have "(4::int) ^ nat 765 mod 3061 = 3061 - 1" by (simp only: nat_numeral)
  moreover have "(765::int) \<noteq> 3061 - 1" by simp
  ultimately have r: "round_passes 3061 765 4" unfolding round_passes_def by blast
  have b: "\<forall>i<50. draw_base rsa_rnd 3061 (58 + i) = 4"
    by (simp add: draw_base_def rsa_rnd_def int64_max_int_def)
  from miller_rabin_test_same_base [OF _ q _ b r]
  have "miller_rabin_test rsa_rnd 50 3061 58 = Some (Inr (True, 108))" by simp
  with z show ?thesis
    unfolding prime_gen_def by (subst prime_gen'.simps) simp
qed

lemma rsa_rnd_e: "e_gen rsa_rnd rsa_config_464 8463960 108 = Some (Inr (769451, 114))"
proof -
  have z: "z_gen rsa_rnd 6 108 = Some (Inr (769451, 114))"
    by (simp add: z_gen_def z_gen'_unfold rsa_rnd_def)
  have "coprime_z 769451 8463960" by code_simp
  with z show ?thesis
    unfolding e_gen_def by (subst e_gen'.simps) (simp add: rsa_config_464_def)
qed

lemma rsa_rnd_d: "d_gen 769451 8463960 = Inr 11"
  unfolding d_gen_def mod_minv_def by (rule z_invert_eq) simp_all

lemma rsa_rnd_run:
  "private_key_gen rsa_rnd rsa_config_464 0 = Some (Inr (rsa_key, 114))"
proof -
  have "p_len rsa_config_464 = 4" "q_len rsa_config_464 = 4"
    by (simp_all add: rsa_config_464_def)
  then show ?thesis
    by (simp add: private_key_gen_def rsa_rnd_p rsa_rnd_q rsa_rnd_e rsa_rnd_d rsa_key_def)
qed

subsection \<open>The round trip\<close>

lemma ball_from_step:
  "(\<forall>m\<in>{a..<p}. P m) \<longleftrightarrow> (if a < p then P a \<and> (\<forall>m\<in>{a + 1..<p::nat}. P m) else True)"
proof (cases "a < p")
  case True
  then have "{a..<p} = insert a {a + 1..<p}" by auto
  then show ?thesis using True by simp
qed simp

lemma int_to_bytes_no_leading_zero: "int_to_bytes m \<noteq> CHR 0x00 # s"
proof (induction m arbitrary: s rule: int_to_bytes.induct)
  case (1 m)
  show ?case
  proof (cases "m \<le> 0")
    case True
    then show ?thesis by (subst int_to_bytes.simps) simp
  next
    case pos: False
    show ?thesis
    proof (cases "m div 256 \<le> 0")
      case True
      with pos have m: "0 < m" "m < 256" by presburger+
      then have "int_to_bytes (m div 256) = []"
        by (subst int_to_bytes.simps) simp
      then have "int_to_bytes m = [char_of m]"
        using pos by (subst int_to_bytes.simps) simp
      moreover have "char_of m \<noteq> CHR 0x00"
      proof
        assume "char_of m = CHR 0x00"
        then have "(of_char (char_of m) :: int) = of_char (CHR 0x00)" by simp
        with m show False by simp
      qed
      ultimately show ?thesis by simp
    next
      case False
      then have "int_to_bytes (m div 256) \<noteq> []"
        by (intro int_to_bytes_nonempty) simp
      then obtain x xs where xs: "int_to_bytes (m div 256) = x # xs"
        by (cases "int_to_bytes (m div 256)") auto
      with 1 [OF pos, of xs] have "x \<noteq> CHR 0x00" by auto
      moreover have "int_to_bytes m = x # xs @ [char_of (m mod 256)]"
        using pos xs by (subst int_to_bytes.simps) simp
      ultimately show ?thesis by simp
    qed
  qed
qed

lemma decrypt_encrypt_chunk:
  assumes primes: "is_prime (nat (sk_p K))" "is_prime (nat (sk_q K))" "sk_p K \<noteq> sk_q K"
    and n: "sk_n K = sk_p K * sk_q K"
    and ed: "(sk_e K * sk_d K) mod ((sk_p K - 1) * (sk_q K - 1))
               = 1 mod ((sk_p K - 1) * (sk_q K - 1))"
      "0 \<le> sk_e K" "0 \<le> sk_d K"
    and bits: "16 \<le> z_numbits (sk_n K)"
    and b: "int (length b) \<le> block_size_of (sk_n K)"
  shows "decryptBlock (encrypt_chunk (public_key_gen K) b) K = big_endian_value b"
proof -
  from primes have "2 \<le> sk_p K" "2 \<le> sk_q K" by (simp_all add: is_prime_def)
  then have "0 < sk_p K * sk_q K" by simp
  with n have pos: "0 < sk_n K" by simp
  from block_below_modulus [OF pos bits b] big_endian_value_range [of b]
  have v: "0 \<le> big_endian_value b" "big_endian_value b < sk_p K * sk_q K"
    using n by simp_all
  from rsa_roundtrip_int [OF primes ed v] show ?thesis
    by (simp add: decryptBlock_def encrypt_chunk_def public_key_gen_def n)
qed

lemma is_prime_sqrt:
  assumes "1 < p" and "p < b * b" and "\<forall>m\<in>{2..<b}. \<not> m dvd p"
  shows "is_prime p"
  unfolding is_prime_def
proof (intro conjI ballI notI)
  show "1 < p" by (rule assms(1))
next
  fix m assume m: "m \<in> {2..<p}" and d: "m dvd p"
  from d obtain k where k: "p = m * k" ..
  from m k assms(1) have k2: "2 \<le> k"
    by (cases "k = 0"; cases "k = 1") auto
  have "k dvd p" using k by simp
  have "m < b \<or> k < b"
  proof (rule ccontr)
    assume "\<not> (m < b \<or> k < b)"
    then have "b \<le> m" "b \<le> k" by simp_all
    then have "b * b \<le> m * k" by (rule mult_le_mono)
    with k assms(2) show False by simp
  qed
  then show False
  proof
    assume "m < b"
    with m have "m \<in> {2..<b}" by simp
    with assms(3) d show False by blast
  next
    assume "k < b"
    with k2 have "k \<in> {2..<b}" by simp
    with assms(3) \<open>k dvd p\<close> show False by blast
  qed
qed

lemma is_prime_2767: "is_prime 2767"
  by (rule is_prime_sqrt [where b = 53]) (simp_all add: ball_from_step)

lemma is_prime_3061: "is_prime 3061"
  by (rule is_prime_sqrt [where b = 56]) (simp_all add: ball_from_step)

lemma int_to_bytes_width_big_endian_value:
  "length s = k \<Longrightarrow> int_to_bytes_width k (big_endian_value s) = s"
proof (induction s arbitrary: k rule: rev_induct)
  case Nil
  then show ?case by simp
next
  case (snoc x s)
  then obtain j where k: "k = Suc j" "length s = j" by (cases k) auto
  have x: "0 \<le> (of_char x :: int)" "(of_char x :: int) < 256"
    using of_char_int_range [of x] by simp_all
  have v: "big_endian_value (s @ [x]) = big_endian_value s * 256 + of_char x"
    by (rule big_endian_value_snoc)
  have dm: "big_endian_value (s @ [x]) div 256 = big_endian_value s"
    "big_endian_value (s @ [x]) mod 256 = of_char x"
    using x unfolding v by simp_all
  show ?case using snoc.IH [OF k(2)] by (simp add: k(1) dm)
qed

lemma decode_last_big_endian_value:
  assumes "s \<noteq> []" and "length s = 1 \<or> hd s \<noteq> CHR 0x00"
  shows "decode_last (big_endian_value s) = s"
proof (cases "hd s = CHR 0x00")
  case True
  with assms have "s = [CHR 0x00]" by (cases s) auto
  then show ?thesis by (simp add: decode_last_def big_endian_value_def)
next
  case False
  then have ib: "int_to_bytes (big_endian_value s) = s"
    by (simp add: int_to_bytes_big_endian_value)
  have "0 < big_endian_value s"
  proof (rule ccontr)
    assume "\<not> 0 < big_endian_value s"
    then have "int_to_bytes (big_endian_value s) = []"
      by (subst int_to_bytes.simps) simp
    with ib assms(1) show False by simp
  qed
  with ib show ?thesis by (simp add: decode_last_def)
qed

lemma decode_last_no_leading_zero: "decode_last m \<noteq> CHR 0x00 # x # s"
  by (simp add: decode_last_def int_to_bytes_no_leading_zero)

lemma decode_blocks_values:
  assumes "\<forall>b\<in>set bs. length b = k"
    and "l \<noteq> []" and "length l = 1 \<or> hd l \<noteq> CHR 0x00"
  shows "decode_blocks k (map big_endian_value (bs @ [l])) = concat bs @ l"
  using assms(1)
proof (induction bs)
  case Nil
  show ?case using assms(2,3) by (simp add: decode_last_big_endian_value)
next
  case (Cons b bs)
  obtain w ws where w: "map big_endian_value (bs @ [l]) = w # ws"
    by (cases "map big_endian_value (bs @ [l])") auto
  from Cons.prems have "length b = k" by simp
  then have "int_to_bytes_width k (big_endian_value b) = b"
    by (rule int_to_bytes_width_big_endian_value)
  moreover from Cons have "decode_blocks k (map big_endian_value (bs @ [l])) = concat bs @ l"
    by simp
  ultimately show ?case using w by simp
qed

lemma chunks_butlast_length:
  assumes "0 < k" and "b \<in> set (butlast (chunks k xs))"
  shows "length b = k"
proof -
  let ?cs = "chunks k xs"
  from assms(2) obtain i where i: "i < length (butlast ?cs)" "butlast ?cs ! i = b"
    by (auto simp add: in_set_conv_nth)
  then have lt: "Suc i < length ?cs" by simp
  then have "i < length ?cs" by simp
  from chunks_lengths [OF assms(1) this] lt have "length (?cs ! i) = k" by simp
  with i show ?thesis by (simp add: nth_butlast)
qed

lemma chunks_append_block:
  "0 < k \<Longrightarrow> length b = k \<Longrightarrow> chunks k (b @ xs) = b # chunks k xs"
  by (subst chunks.simps) auto

lemma chunks_concat_blocks:
  assumes "0 < k" and "\<forall>b\<in>set bs. length b = k"
  shows "chunks k (concat bs @ xs) = bs @ chunks k xs"
  using assms(2) by (induction bs) (simp_all add: chunks_append_block [OF assms(1)])

lemma chunks_single: "0 < k \<Longrightarrow> xs \<noteq> [] \<Longrightarrow> length xs \<le> k \<Longrightarrow> chunks k xs = [xs]"
  by (subst chunks.simps) simp

lemma big_endian_value_leading_zero: "big_endian_value (CHR 0x00 # s) = big_endian_value s"
  using encode_leading_zero [of s] by (simp only: encode_big_endian)

text \<open>
  C1, as the code has it. For a key pair on two distinct primes with
  \<open>e \<sqdot> d \<equiv> 1 (mod (p - 1)(q - 1))\<close> and a modulus of at least 16 bits, and a plaintext
  whose last chunk is a single byte or does not begin with a zero byte, the blocks that
  \<open>encode_blocks\<close> serializes decrypt to the plaintext. The chunks before the last may
  begin with zero bytes.
\<close>

theorem rsa_round_trip:
  assumes primes: "is_prime (nat (sk_p K))" "is_prime (nat (sk_q K))" "sk_p K \<noteq> sk_q K"
    and n: "sk_n K = sk_p K * sk_q K"
    and ed: "(sk_e K * sk_d K) mod ((sk_p K - 1) * (sk_q K - 1))
               = 1 mod ((sk_p K - 1) * (sk_q K - 1))"
      "0 \<le> sk_e K" "0 \<le> sk_d K"
    and bits: "16 \<le> z_numbits (sk_n K)"
    and nz: "P = [] \<or> length (last (chunks (nat (block_size_of (sk_n K))) P)) = 1
               \<or> hd (last (chunks (nat (block_size_of (sk_n K))) P)) \<noteq> CHR 0x00"
  shows "encode_blocks (block_size_of (sk_n K)) (public_key_gen K) P []
           = Some (Inr (map serialize_ciphertext (encryptMessage P (public_key_gen K))))
       \<and> decryptMessage (encryptMessage P (public_key_gen K)) K = P"
proof -
  let ?pk = "public_key_gen K"
  let ?bs = "block_size_of (sk_n K)"
  let ?cs = "chunks (nat ?bs) P"
  from primes have "2 \<le> sk_p K" "2 \<le> sk_q K" by (simp_all add: is_prime_def)
  then have "0 < sk_p K * sk_q K" by simp
  with n have pos: "0 < pk_n ?pk" by (simp add: public_key_gen_def)
  have e: "0 \<le> pk_e ?pk" using ed(2) by (simp add: public_key_gen_def)
  have pkn: "pk_n ?pk = sk_n K" by (simp add: public_key_gen_def)
  from block_size_of_pos [OF bits] have bs: "1 \<le> ?bs" by simp
  then have k: "0 < nat ?bs" by simp
  have "encode_blocks ?bs ?pk P []
        = Some (Inr (map (\<lambda>b. serialize_ciphertext (encrypt_chunk ?pk b)) ?cs))"
    using encode_blocks_acc [OF bs pos e, of P "[]"] by simp
  then have enc: "encode_blocks ?bs ?pk P []
        = Some (Inr (map serialize_ciphertext (encryptMessage P ?pk)))"
    by (simp add: encryptMessage_def pkn comp_def)
  have "decryptBlock (encrypt_chunk ?pk b) K = big_endian_value b" if "b \<in> set ?cs" for b
  proof -
    from chunks_set [OF k that] bs have "int (length b) \<le> ?bs" by linarith
    from decrypt_encrypt_chunk [OF primes n ed bits this] show ?thesis .
  qed
  then have m: "map (\<lambda>b. decryptBlock (encrypt_chunk ?pk b) K) ?cs = map big_endian_value ?cs"
    by (intro map_cong) simp_all
  have "decryptMessage (encryptMessage P ?pk) K
        = decode_blocks (nat ?bs) (map (\<lambda>b. decryptBlock (encrypt_chunk ?pk b) K) ?cs)"
    by (simp add: decryptMessage_def encryptMessage_def pkn comp_def)
  with m have dec: "decryptMessage (encryptMessage P ?pk) K
                  = decode_blocks (nat ?bs) (map big_endian_value ?cs)"
    by (simp only:)
  have "decode_blocks (nat ?bs) (map big_endian_value ?cs) = P"
  proof (cases "P = []")
    case True
    then show ?thesis by simp
  next
    case False
    with k have ne: "?cs \<noteq> []" by (simp add: chunks_Cons)
    then have split: "?cs = butlast ?cs @ [last ?cs]" by simp
    have full: "\<forall>b\<in>set (butlast ?cs). length b = nat ?bs"
      using chunks_butlast_length [OF k] by blast
    from ne have "last ?cs \<in> set ?cs" by simp
    from chunks_set [OF k this] have l: "last ?cs \<noteq> []" by simp
    from nz False have ok: "length (last ?cs) = 1 \<or> hd (last ?cs) \<noteq> CHR 0x00" by simp
    from decode_blocks_values [OF full l ok] split
    have "decode_blocks (nat ?bs) (map big_endian_value ?cs) = concat ?cs"
      by (metis concat_append concat.simps(2) concat.simps(1) append_Nil2)
    with concat_chunks [OF k, of P] show ?thesis by simp
  qed
  with dec enc show ?thesis by simp
qed

theorem rsa_round_trip_witness:
  "decryptMessage (encryptMessage [CHR 0x00, CHR ''A'', CHR ''B''] (public_key_gen rsa_key)) rsa_key
     = [CHR 0x00, CHR ''A'', CHR ''B'']"
proof -
  have h1: "is_prime (nat (sk_p rsa_key))" and h2: "is_prime (nat (sk_q rsa_key))"
    by (simp_all add: rsa_key_def is_prime_2767 is_prime_3061)
  have h3: "sk_p rsa_key \<noteq> sk_q rsa_key"
    and h4: "sk_n rsa_key = sk_p rsa_key * sk_q rsa_key"
    and h5: "(sk_e rsa_key * sk_d rsa_key) mod ((sk_p rsa_key - 1) * (sk_q rsa_key - 1))
               = 1 mod ((sk_p rsa_key - 1) * (sk_q rsa_key - 1))"
    and h6: "0 \<le> sk_e rsa_key" and h7: "0 \<le> sk_d rsa_key"
    by (simp_all add: rsa_key_def)
  have nb: "z_numbits (sk_n rsa_key) = 24"
    by (simp add: rsa_key_def z_numbits_rsa_key)
  then have h8: "16 \<le> z_numbits (sk_n rsa_key)" by simp
  have bs: "nat (block_size_of (sk_n rsa_key)) = 2"
    by (simp add: block_size_of_def nb)
  have "chunks 2 [CHR 0x00, CHR ''A'', CHR ''B''] = [[CHR 0x00, CHR ''A''], [CHR ''B'']]"
    by (simp add: chunks.simps)
  then have h9: "[CHR 0x00, CHR ''A'', CHR ''B''] = []
      \<or> length (last (chunks (nat (block_size_of (sk_n rsa_key))) [CHR 0x00, CHR ''A'', CHR ''B''])) = 1
      \<or> hd (last (chunks (nat (block_size_of (sk_n rsa_key))) [CHR 0x00, CHR ''A'', CHR ''B'']))
           \<noteq> CHR 0x00"
    by (simp add: bs)
  from rsa_round_trip [OF h1 h2 h3 h4 h5 h6 h7 h8 h9] show ?thesis by blast
qed

text \<open>
  C1, as the specification has it, fails. On the key pair that \<open>private_key_gen\<close>
  returns for the source \<open>rsa_rnd\<close> (primes 2767 and 3061, block size 2), the plaintext
  of a zero byte and \<open>A\<close> has the ciphertext of the plaintext \<open>A\<close>, and its decryption is
  not the plaintext.
\<close>

theorem rsa_round_trip_counterexample:
  "private_key_gen rsa_rnd rsa_config_464 0 = Some (Inr (rsa_key, 114))
   \<and> encryptMessage [CHR 0x00, CHR ''A''] (public_key_gen rsa_key)
       = encryptMessage [CHR ''A''] (public_key_gen rsa_key)
   \<and> decryptMessage (encryptMessage [CHR 0x00, CHR ''A''] (public_key_gen rsa_key)) rsa_key
       \<noteq> [CHR 0x00, CHR ''A'']"
proof -
  have bs: "nat (block_size_of (pk_n (public_key_gen rsa_key))) = 2"
    by (simp add: public_key_gen_def rsa_key_def block_size_of_def z_numbits_rsa_key)
  have c1: "chunks 2 [CHR 0x00, CHR ''A''] = [[CHR 0x00, CHR ''A'']]"
    by (simp add: chunks.simps)
  have c2: "chunks 2 [CHR ''A''] = [[CHR ''A'']]"
    by (simp add: chunks.simps)
  have same: "encrypt_chunk pk [CHR 0x00, CHR ''A''] = encrypt_chunk pk [CHR ''A'']" for pk
    by (simp add: encrypt_chunk_def encode_big_endian [symmetric])
  have "encryptMessage [CHR 0x00, CHR ''A''] (public_key_gen rsa_key)
        = encryptMessage [CHR ''A''] (public_key_gen rsa_key)"
    by (simp add: encryptMessage_def bs c1 c2 same)
  moreover have "decryptMessage (encryptMessage [CHR 0x00, CHR ''A''] (public_key_gen rsa_key)) rsa_key
        \<noteq> [CHR 0x00, CHR ''A'']"
    by (simp add: encryptMessage_def decryptMessage_def bs c1 decode_last_no_leading_zero)
  ultimately show ?thesis using rsa_rnd_run by blast
qed

text \<open>
  The restriction on the last chunk is forced by the code: a plaintext whose last chunk
  has a zero byte before other bytes has the blocks of the plaintext without that zero
  byte, under every public key, so the blocks cannot decrypt to both.
\<close>

lemma last_chunk_leading_zero_collides:
  assumes k: "0 < nat (block_size_of (pk_n pk))"
    and cs: "chunks (nat (block_size_of (pk_n pk))) P = bs @ [CHR 0x00 # t]"
    and t: "t \<noteq> []"
  shows "concat bs @ t \<noteq> P \<and> encryptMessage (concat bs @ t) pk = encryptMessage P pk"
proof -
  let ?k = "nat (block_size_of (pk_n pk))"
  from concat_chunks [OF k, of P] cs have P: "P = concat bs @ CHR 0x00 # t" by simp
  then have ne: "concat bs @ t \<noteq> P" by simp
  have "length b = ?k" if "b \<in> set bs" for b
    using chunks_butlast_length [OF k, of b P] that cs by simp
  then have full: "\<forall>b\<in>set bs. length b = ?k" by blast
  have "CHR 0x00 # t \<in> set (chunks ?k P)" using cs by simp
  from chunks_set [OF k this] have "length t \<le> ?k" by simp
  with t k have "chunks ?k t = [t]" by (simp add: chunks_single)
  with chunks_concat_blocks [OF k full, of t]
  have "chunks ?k (concat bs @ t) = bs @ [t]" by simp
  then have "encryptMessage (concat bs @ t) pk = encryptMessage P pk"
    by (simp add: encryptMessage_def cs encrypt_chunk_def big_endian_value_leading_zero)
  with ne show ?thesis by blast
qed

subsection \<open>A key pair on a composite\<close>

lemma composite_rnd_p: "prime_gen composite_rnd 50 4 0 = Some (Inr (2047, 54))"
proof -
  have z: "z_gen composite_rnd 4 0 = Some (Inr (2047, 4))"
    by (simp add: z_gen_def z_gen'_unfold composite_rnd_def)
  have q: "get_factor_q (2047 - 1) = Some 1023" by code_simp
  have "pow_mod 2 1023 2047 = 1" by (simp add: pow_mod.simps)
  then have "(2::int) ^ 1023 mod 2047 = 1" by (simp only: pow_mod_correct)
  then have "(2::int) ^ nat 1023 mod 2047 = 1" by (simp only: nat_numeral)
  then have r: "round_passes 2047 1023 2" by (simp only: round_passes_def simp_thms)
  have b: "\<forall>i<50. draw_base composite_rnd 2047 (4 + i) = 2"
    by (simp add: draw_base_def composite_rnd_def int64_max_int_def)
  from miller_rabin_test_same_base [OF _ q _ b r]
  have "miller_rabin_test composite_rnd 50 2047 4 = Some (Inr (True, 54))" by simp
  with z show ?thesis
    unfolding prime_gen_def by (subst prime_gen'.simps) simp
qed

lemma composite_rnd_q: "prime_gen composite_rnd 50 4 54 = Some (Inr (2767, 108))"
proof -
  have z: "z_gen composite_rnd 4 54 = Some (Inr (2767, 58))"
    by (simp add: z_gen_def z_gen'_unfold composite_rnd_def)
  have q: "get_factor_q (2767 - 1) = Some 1383" by code_simp
  have "pow_mod 2 1383 2767 = 1" by (simp add: pow_mod.simps)
  then have "(2::int) ^ 1383 mod 2767 = 1" by (simp only: pow_mod_correct)
  then have "(2::int) ^ nat 1383 mod 2767 = 1" by (simp only: nat_numeral)
  then have r: "round_passes 2767 1383 2" by (simp only: round_passes_def simp_thms)
  have b: "\<forall>i<50. draw_base composite_rnd 2767 (58 + i) = 2"
    by (simp add: draw_base_def composite_rnd_def int64_max_int_def)
  from miller_rabin_test_same_base [OF _ q _ b r]
  have "miller_rabin_test composite_rnd 50 2767 58 = Some (Inr (True, 108))" by simp
  with z show ?thesis
    unfolding prime_gen_def by (subst prime_gen'.simps) simp
qed

lemma composite_rnd_e: "e_gen composite_rnd rsa_config_441 5659236 108 = Some (Inr (7, 109))"
proof -
  have z: "z_gen composite_rnd 1 108 = Some (Inr (7, 109))"
    by (simp add: z_gen_def z_gen'_unfold composite_rnd_def)
  have "coprime_z 7 5659236" by code_simp
  with z show ?thesis
    unfolding e_gen_def by (subst e_gen'.simps) (simp add: rsa_config_441_def)
qed

lemma composite_rnd_d: "d_gen 7 5659236 = Inr 2425387"
  unfolding d_gen_def mod_minv_def by (rule z_invert_eq) simp_all

lemma composite_rnd_run:
  "private_key_gen composite_rnd rsa_config_441 0 = Some (Inr (composite_key, 109))"
proof -
  have "p_len rsa_config_441 = 4" "q_len rsa_config_441 = 4"
    by (simp_all add: rsa_config_441_def)
  then show ?thesis
    by (simp add: private_key_gen_def composite_rnd_p composite_rnd_q composite_rnd_e
                  composite_rnd_d composite_key_def)
qed

text \<open>
  A key pair that \<open>private_key_gen\<close> returns need not be on primes: when every base
  drawn is 2 the test accepts \<open>2047 = 23 \<sqdot> 89\<close>, and on that key pair the plaintext \<open>A\<close>
  does not decrypt to itself.
\<close>

lemma composite_key_round_trip_fails:
  "private_key_gen composite_rnd rsa_config_441 0 = Some (Inr (composite_key, 109))
   \<and> sk_p composite_key = 23 * 89
   \<and> decryptMessage (encryptMessage ''A'' (public_key_gen composite_key)) composite_key \<noteq> ''A''"
proof -
  have nb: "z_numbits 5664049 = 23"
    by (simp add: z_numbits_def numbits_nat.simps)
  have bs: "nat (block_size_of (pk_n (public_key_gen composite_key))) = 1"
    by (simp add: public_key_gen_def composite_key_def block_size_of_def nb
                  signed_divide_int_def)
  have c1: "chunks (Suc 0) ''A'' = [''A'']"
    by (simp add: chunks.simps)
  have v: "big_endian_value ''A'' = 65"
    by (simp add: encode_big_endian [symmetric])
  have "pow_mod 65 7 5664049 = 4809223" by (simp add: pow_mod.simps)
  then have pe: "(65::int) ^ 7 mod 5664049 = 4809223" by (simp only: pow_mod_correct)
  have "encrypt_chunk (public_key_gen composite_key) ''A'' = 65 ^ 7 mod 5664049"
    by (simp only: encrypt_chunk_def public_key_gen_def composite_key_def v
                   private_key.simps public_key.simps nat_numeral)
  with pe have e: "encrypt_chunk (public_key_gen composite_key) ''A'' = 4809223"
    by (simp only:)
  have "pow_mod 4809223 2425387 5664049 = 509193" by (simp add: pow_mod.simps)
  then have pd: "(4809223::int) ^ 2425387 mod 5664049 = 509193" by (simp only: pow_mod_correct)
  have "decryptBlock 4809223 composite_key = 4809223 ^ 2425387 mod 5664049"
    by (simp only: decryptBlock_def composite_key_def private_key.simps nat_numeral)
  with pd have d: "decryptBlock 4809223 composite_key = 509193"
    by (simp only:)
  have "decode_last 509193 \<noteq> ''A''"
    by (simp add: decode_last_def int_to_bytes.simps)
  then have "decryptMessage (encryptMessage ''A'' (public_key_gen composite_key)) composite_key
             \<noteq> ''A''"
    by (simp add: encryptMessage_def decryptMessage_def bs c1 e d)
  with composite_rnd_run show ?thesis by (simp add: composite_key_def)
qed

lemma encrypt_and_return_message_blocks:
  assumes "private_key_gen rnd rc pos = Some (Inr (K, pos'))"
  shows "encrypt_and_return_message rnd msg rc pos =
           (case encode_blocks (block_size_of (sk_n K)) (public_key_gen K) msg [] of
              None \<Rightarrow> None
            | Some (Inl x) \<Rightarrow> Some (Inl x)
            | Some (Inr blocks) \<Rightarrow>
                Some (Inr ((string_concat '' '' blocks, serialize_private_key K), pos')))"
  using assms
  by (simp add: encrypt_and_return_message_def private_key_gen_and_save_def Let_def)


end
